theory Spec2Isabelle
  imports Main
begin

text \<open>
  A model of \<^verbatim>\<open>PageAccessController\<close>, the controller that keeps a set of root pages and
  decides for the id of a page, database or block whether it lies below one of them. The
  controller with a single root page has the same \<^verbatim>\<open>normalizePageId\<close> and
  \<^verbatim>\<open>extractPageIdFromUrl\<close>, word for word.
\<close>

section \<open>Strings\<close>

text \<open>
  A JavaScript string is modelled as a \<^typ>\<open>string\<close>, one \<^typ>\<open>char\<close> per code unit, so
  the strings of the model are those whose code units lie below 256. On these,
  \<^verbatim>\<open>toLowerCase\<close> maps \<open>A\<close>..\<open>Z\<close> (65..90) and the capital letters of the range
  192..222, without the multiplication sign 215, to the code unit 32 above, and leaves
  every other code unit alone; \<^verbatim>\<open>trim\<close> strips the code units 9..13, 32 and 160.
\<close>

definition toLowerCaseChar :: "char \<Rightarrow> char" where
  "toLowerCaseChar c =
     (let n = (of_char c :: nat) in
      if (65 \<le> n \<and> n \<le> 90) \<or> (192 \<le> n \<and> n \<le> 222 \<and> n \<noteq> 215)
      then char_of (n + 32) else c)"

definition toLowerCase :: "string \<Rightarrow> string" where
  "toLowerCase s = map toLowerCaseChar s"

text \<open>\<^verbatim>\<open>pageId.replace(/-/g, '')\<close>\<close>

definition removeDashes :: "string \<Rightarrow> string" where
  "removeDashes s = filter (\<lambda>c. c \<noteq> CHR ''-'') s"

text \<open>\<^verbatim>\<open>s.slice(b, e)\<close> for indices \<open>0 \<le> b\<close>, \<open>0 \<le> e\<close>; both are clamped to the length.\<close>

definition slice :: "nat \<Rightarrow> nat \<Rightarrow> string \<Rightarrow> string" where
  "slice b e s = take (e - b) (drop b s)"

definition isWhitespace :: "char \<Rightarrow> bool" where
  "isWhitespace c = ((of_char c :: nat) \<in> {9, 10, 11, 12, 13, 32, 160})"

definition trim :: "string \<Rightarrow> string" where
  "trim s = rev (dropWhile isWhitespace (rev (dropWhile isWhitespace s)))"

text \<open>\<^verbatim>\<open>s.split(',')\<close>: the result is never empty, \<^verbatim>\<open>''.split(',')\<close> is \<^verbatim>\<open>['']\<close>.\<close>

fun split_comma :: "string \<Rightarrow> string list" where
  "split_comma [] = [[]]"
| "split_comma (c # cs) =
     (if c = CHR '','' then [] # split_comma cs
      else (case split_comma cs of [] \<Rightarrow> [[c]] | w # ws \<Rightarrow> (c # w) # ws))"

text \<open>The character class \<^verbatim>\<open>[a-f0-9]\<close> under the flag \<^verbatim>\<open>i\<close>.\<close>

definition isHexDigit :: "char \<Rightarrow> bool" where
  "isHexDigit c =
     (let n = (of_char c :: nat)
      in (48 \<le> n \<and> n \<le> 57) \<or> (97 \<le> n \<and> n \<le> 102) \<or> (65 \<le> n \<and> n \<le> 70))"

section \<open>Errors\<close>

text \<open>
  \<open>InvalidPageId s\<close> is \<^verbatim>\<open>Error(`Invalid page ID format: ${s}`)\<close>,
  \<open>InvalidPageUrl s\<close> is \<^verbatim>\<open>Error(`Invalid Notion page URL format: ${s}`)\<close>,
  \<open>HttpClientError s\<close> is whatever \<^verbatim>\<open>httpClient.executeOperation\<close> throws.
\<close>

datatype error = InvalidPageId string | InvalidPageUrl string | HttpClientError string

section \<open>Identifier normalisation\<close>

definition normalizePageId :: "string \<Rightarrow> error + string" where
  "normalizePageId pageId =
     (let cleanId = toLowerCase (removeDashes pageId) in
      if length cleanId \<noteq> 32 then Inl (InvalidPageId pageId)
      else Inr (slice 0 8 cleanId @ ''-'' @ slice 8 12 cleanId @ ''-'' @ slice 12 16 cleanId
                @ ''-'' @ slice 16 20 cleanId @ ''-'' @ drop 20 cleanId))"

text \<open>
  \<^verbatim>\<open>[a-f0-9]{8}-[a-f0-9]{4}-[a-f0-9]{4}-[a-f0-9]{4}-[a-f0-9]{12}\<close> against a whole string.
\<close>

definition matchesHyphenated :: "string \<Rightarrow> bool" where
  "matchesHyphenated s =
     (length s = 36 \<and> list_all isHexDigit (slice 0 8 s) \<and> slice 8 9 s = ''-''
      \<and> list_all isHexDigit (slice 9 13 s) \<and> slice 13 14 s = ''-''
      \<and> list_all isHexDigit (slice 14 18 s) \<and> slice 18 19 s = ''-''
      \<and> list_all isHexDigit (slice 19 23 s) \<and> slice 23 24 s = ''-''
      \<and> list_all isHexDigit (slice 24 36 s))"

text \<open>
  \<^verbatim>\<open>url.match(/([a-f0-9]{32}|[a-f0-9]{8}-...-[a-f0-9]{12})$/i)\<close>: the pattern is anchored
  at the end of the input, so the only candidate matches are the last 36 characters (second
  alternative) and the last 32 characters (first alternative); the search is leftmost, so
  the longer suffix is tried first. The result is the capture group.
\<close>

definition matchPageIdSuffix :: "string \<Rightarrow> string option" where
  "matchPageIdSuffix url =
     (let n = length url in
      if 36 \<le> n \<and> matchesHyphenated (drop (n - 36) url) then Some (drop (n - 36) url)
      else if 32 \<le> n \<and> list_all isHexDigit (drop (n - 32) url) then Some (drop (n - 32) url)
      else None)"

definition extractPageIdFromUrl :: "string \<Rightarrow> error + string" where
  "extractPageIdFromUrl url =
     (case matchPageIdSuffix url of
        None \<Rightarrow> Inl (InvalidPageUrl url)
      | Some m \<Rightarrow> normalizePageId m)"

section \<open>The remote metadata provider\<close>

text \<open>
  The three operations the controller passes to \<^verbatim>\<open>httpClient.executeOperation\<close>, each with
  its path parameter. A response is reduced to what the controller reads from it,
  \<^verbatim>\<open>response.data?.parent\<close>: \<open>None\<close> when the field is absent, otherwise the parent's
  \<^verbatim>\<open>type\<close> with the id stored under it; \<open>other_type\<close> is any type the controller does not
  look at (a workspace parent). \<open>Inl\<close> is a call that throws. The provider is a
  function of the operation: the remote hierarchy does not change between the calls of one
  run, and several runs do not overlap.
\<close>

datatype operation = retrieve_a_page string | retrieve_a_block string | retrieve_a_database string

datatype parent = page_id string | database_id string | block_id string | other_type

type_synonym http_client = "operation \<Rightarrow> error + parent option"

text \<open>
  \<^verbatim>\<open>await this.httpClient.executeOperation(operation, params)\<close>. The list is the
  call counter of the provider: the operations executed so far, oldest first.
\<close>

definition executeOperation ::
  "http_client \<Rightarrow> operation \<Rightarrow> operation list \<Rightarrow> (error + parent option) \<times> operation list" where
  "executeOperation hc op log = (hc op, log @ [op])"

text \<open>Truthiness of a \<^verbatim>\<open>string | null\<close>: \<^verbatim>\<open>null\<close> and the empty string are falsy.\<close>

definition truthy :: "string option \<Rightarrow> bool" where
  "truthy s = (case s of None \<Rightarrow> False | Some v \<Rightarrow> v \<noteq> [])"

section \<open>Parent resolution\<close>

text \<open>
  A function that can throw returns a sum, \<open>Inl\<close> the exception; a function that need
  not return returns an option, \<open>None\<close> the call that never returns.

  \<^verbatim>\<open>catch (error) { console.error(...); return null }\<close>, applied to the outcome of the
  \<^verbatim>\<open>try\<close> block it belongs to. The console is not part of the model.
\<close>

definition catchReturnNull ::
  "(error + string option) \<times> operation list \<Rightarrow> (error + string option) \<times> operation list" where
  "catchReturnNull outcome =
     (case outcome of (Inl e, log) \<Rightarrow> (Inr None, log) | (Inr v, log) \<Rightarrow> (Inr v, log))"

text \<open>
  \<^verbatim>\<open>resolveBlockToPage\<close> and \<^verbatim>\<open>getDatabaseParent\<close> call each other, and neither has a
  bound on the recursion, so the pair is one partial function on a tagged id. The body of
  each is one \<^verbatim>\<open>try\<close> block, which holds the call of the provider and the recursive calls.
\<close>

datatype container = block string | database string

partial_function (option) resolveContainer ::
  "http_client \<Rightarrow> container \<Rightarrow> operation list
     \<Rightarrow> ((error + string option) \<times> operation list) option"
where
  "resolveContainer hc t log =
     Option.bind
       (case t of
          block blockId \<Rightarrow>
            (case executeOperation hc (retrieve_a_block blockId) log of
               (Inl e, log') \<Rightarrow> Some (Inl e, log')
             | (Inr None, log') \<Rightarrow> Some (Inr None, log')
             | (Inr (Some (page_id p)), log') \<Rightarrow> Some (Inr (Some p), log')
             | (Inr (Some (block_id b)), log') \<Rightarrow> resolveContainer hc (block b) log'
             | (Inr (Some (database_id d)), log') \<Rightarrow> resolveContainer hc (database d) log'
             | (Inr (Some other_type), log') \<Rightarrow> Some (Inr None, log'))
        | database databaseId \<Rightarrow>
            (case executeOperation hc (retrieve_a_database databaseId) log of
               (Inl e, log') \<Rightarrow> Some (Inl e, log')
             | (Inr None, log') \<Rightarrow> Some (Inr None, log')
             | (Inr (Some (page_id p)), log') \<Rightarrow> Some (Inr (Some p), log')
             | (Inr (Some (block_id b)), log') \<Rightarrow> resolveContainer hc (block b) log'
             | (Inr (Some (database_id d)), log') \<Rightarrow> Some (Inr None, log')
             | (Inr (Some other_type), log') \<Rightarrow> Some (Inr None, log')))
       (\<lambda>outcome. Some (catchReturnNull outcome))"

declare resolveContainer.simps [code]

definition resolveBlockToPage ::
  "http_client \<Rightarrow> string \<Rightarrow> operation list
     \<Rightarrow> ((error + string option) \<times> operation list) option" where
  "resolveBlockToPage hc blockId log = resolveContainer hc (block blockId) log"

definition getDatabaseParent ::
  "http_client \<Rightarrow> string \<Rightarrow> operation list
     \<Rightarrow> ((error + string option) \<times> operation list) option" where
  "getDatabaseParent hc databaseId log = resolveContainer hc (database databaseId) log"

text \<open>
  \<^verbatim>\<open>getParentPageId\<close>: its \<^verbatim>\<open>catch\<close> logs the exception and throws it again, so what the
  provider or one of the two resolutions throws leaves the function.
\<close>

definition getParentPageId ::
  "http_client \<Rightarrow> string \<Rightarrow> operation list
     \<Rightarrow> ((error + string option) \<times> operation list) option" where
  "getParentPageId hc pageId log =
     (case executeOperation hc (retrieve_a_page pageId) log of
        (Inl e, log') \<Rightarrow> Some (Inl e, log')
      | (Inr None, log') \<Rightarrow> Some (Inr None, log')
      | (Inr (Some (page_id p)), log') \<Rightarrow> Some (Inr (Some p), log')
      | (Inr (Some (database_id d)), log') \<Rightarrow> getDatabaseParent hc d log'
      | (Inr (Some (block_id b)), log') \<Rightarrow> resolveBlockToPage hc b log'
      | (Inr (Some other_type), log') \<Rightarrow> Some (Inr None, log'))"

text \<open>
  \<^verbatim>\<open>findRootPageForResource\<close>: the probes in the order page, database, block. Each inner
  \<^verbatim>\<open>try\<close> swallows what its probe throws, so that the next probe runs when a probe threw
  or returned a falsy id; the \<^verbatim>\<open>try\<close> around them returns \<^verbatim>\<open>null\<close> for anything else.
\<close>

definition findRootPageForResource ::
  "http_client \<Rightarrow> string \<Rightarrow> operation list
     \<Rightarrow> ((error + string option) \<times> operation list) option" where
  "findRootPageForResource hc resourceId log =
     Option.bind
       (case executeOperation hc (retrieve_a_page resourceId) log of
          (Inr _, log1) \<Rightarrow> Some (Inr (Some resourceId), log1)
        | (Inl _, log1) \<Rightarrow>
            (case getDatabaseParent hc resourceId log1 of
               None \<Rightarrow> None
             | Some (parentPageId, log2) \<Rightarrow>
                 if (case parentPageId of Inl e \<Rightarrow> False | Inr v \<Rightarrow> truthy v)
                 then Some (parentPageId, log2)
                 else
                   (case resolveBlockToPage hc resourceId log2 of
                      None \<Rightarrow> None
                    | Some (parentPageId', log3) \<Rightarrow>
                        if (case parentPageId' of Inl e \<Rightarrow> False | Inr v \<Rightarrow> truthy v)
                        then Some (parentPageId', log3)
                        else Some (Inr None, log3))))
       (\<lambda>outcome. Some (catchReturnNull outcome))"

section \<open>The controller\<close>

record cache_entry =
  parentId :: "string option"
  isAllowed :: bool

text \<open>
  The fields of \<^verbatim>\<open>PageAccessController\<close>, and \<open>calls\<close>, the operations the controller has
  asked its \<^verbatim>\<open>httpClient\<close> to execute.
\<close>

record controller =
  rootPageIds :: "string set"
  httpClient :: http_client
  pageCache :: "string \<rightharpoonup> cache_entry"
  calls :: "operation list"

definition isEnabled :: "controller \<Rightarrow> bool" where
  "isEnabled c = (rootPageIds c \<noteq> {})"

definition clearCache :: "controller \<Rightarrow> controller" where
  "clearCache c = c\<lparr>pageCache := Map.empty\<rparr>"

definition cacheSet :: "string \<Rightarrow> cache_entry \<Rightarrow> controller \<Rightarrow> controller" where
  "cacheSet k e c = c\<lparr>pageCache := (pageCache c)(k \<mapsto> e)\<rparr>"

text \<open>
  \<^verbatim>\<open>visited.forEach(id => this.pageCache.set(id, { parentId: null, isAllowed: true }))\<close>
\<close>

definition cacheVisitedAllowed :: "string list \<Rightarrow> controller \<Rightarrow> controller" where
  "cacheVisitedAllowed visited c =
     fold (\<lambda>k. cacheSet k \<lparr>parentId = None, isAllowed = True\<rparr>) visited c"

text \<open>
  \<^verbatim>\<open>visited.forEach(id => { if (!this.pageCache.has(id)) this.pageCache.set(id, {...false}) })\<close>
\<close>

definition cacheVisitedDenied :: "string list \<Rightarrow> controller \<Rightarrow> controller" where
  "cacheVisitedDenied visited c =
     fold (\<lambda>k c'. if pageCache c' k = None
                   then cacheSet k \<lparr>parentId = None, isAllowed = False\<rparr> c' else c') visited c"

text \<open>
  The loop of \<^verbatim>\<open>checkPageHierarchy\<close>, with the statements after it. \<open>visited\<close> is the
  set in insertion order. The walk need not end (the provider may name a fresh parent
  for ever, or the resolution of a block may not return). The only statement of the loop
  that can throw is the call of \<^verbatim>\<open>getParentPageId\<close>, at the head of the \<^verbatim>\<open>try\<close> block;
  the branch \<open>Inl\<close> below is the \<^verbatim>\<open>catch\<close>.
\<close>

partial_function (option) checkPageHierarchyLoop ::
  "controller \<Rightarrow> string list \<Rightarrow> string option \<Rightarrow> ((error + bool) \<times> controller) option"
where
  "checkPageHierarchyLoop c visited currentPageId =
     (case currentPageId of
        None \<Rightarrow> Some (Inr False, cacheVisitedDenied visited c)
      | Some cur \<Rightarrow>
          if cur = [] \<or> cur \<in> set visited then Some (Inr False, cacheVisitedDenied visited c)
          else if cur \<in> rootPageIds c
            then Some (Inr True, cacheVisitedAllowed (visited @ [cur]) c)
          else
            (case getParentPageId (httpClient c) cur (calls c) of
               None \<Rightarrow> None
             | Some (Inl e, log) \<Rightarrow>
                 Some (Inr False,
                   cacheSet cur \<lparr>parentId = None, isAllowed = False\<rparr> (c\<lparr>calls := log\<rparr>))
             | Some (Inr parentId', log) \<Rightarrow>
                 if truthy parentId'
                 then checkPageHierarchyLoop
                        (cacheSet cur \<lparr>parentId = parentId', isAllowed = False\<rparr> (c\<lparr>calls := log\<rparr>))
                        (visited @ [cur]) parentId'
                 else Some (Inr False,
                        cacheVisitedDenied (visited @ [cur])
                          (cacheSet cur \<lparr>parentId = parentId', isAllowed = False\<rparr>
                             (c\<lparr>calls := log\<rparr>)))))"

declare checkPageHierarchyLoop.simps [code]

definition checkPageHierarchy ::
  "controller \<Rightarrow> string \<Rightarrow> ((error + bool) \<times> controller) option" where
  "checkPageHierarchy c pageId = checkPageHierarchyLoop c [] (Some pageId)"

text \<open>
  \<^verbatim>\<open>isPageAllowed\<close> has no \<^verbatim>\<open>try\<close>: what \<^verbatim>\<open>normalizePageId\<close>,
  \<^verbatim>\<open>findRootPageForResource\<close> or \<^verbatim>\<open>checkPageHierarchy\<close> throws leaves the function.
\<close>

definition isPageAllowed :: "controller \<Rightarrow> string \<Rightarrow> ((error + bool) \<times> controller) option" where
  "isPageAllowed c resourceId =
     (if \<not> isEnabled c then Some (Inr True, c)
      else
        (case normalizePageId resourceId of
           Inl e \<Rightarrow> Some (Inl e, c)
         | Inr normalizedResourceId \<Rightarrow>
             if normalizedResourceId \<in> rootPageIds c then Some (Inr True, c)
             else
               (case pageCache c normalizedResourceId of
                  Some entry \<Rightarrow> Some (Inr (isAllowed entry), c)
                | None \<Rightarrow>
                    (case findRootPageForResource (httpClient c) normalizedResourceId (calls c) of
                       None \<Rightarrow> None
                     | Some (Inl e, log) \<Rightarrow> Some (Inl e, c\<lparr>calls := log\<rparr>)
                     | Some (Inr None, log) \<Rightarrow>
                         Some (Inr False,
                           cacheSet normalizedResourceId \<lparr>parentId = None, isAllowed = False\<rparr>
                             (c\<lparr>calls := log\<rparr>))
                     | Some (Inr (Some actualPageId), log) \<Rightarrow>
                         if actualPageId = [] then
                           Some (Inr False,
                             cacheSet normalizedResourceId \<lparr>parentId = None, isAllowed = False\<rparr>
                               (c\<lparr>calls := log\<rparr>))
                         else
                           (case checkPageHierarchy (c\<lparr>calls := log\<rparr>) actualPageId of
                              None \<Rightarrow> None
                            | Some (Inl e, c') \<Rightarrow> Some (Inl e, c')
                            | Some (Inr allowed, c') \<Rightarrow>
                                Some (Inr allowed,
                                  cacheSet normalizedResourceId
                                    \<lparr>parentId = Some actualPageId, isAllowed = allowed\<rparr> c'))))))"

section \<open>Construction of the root set\<close>

record options =
  pageIds :: "string list option"
  pageUrls :: "string list option"

record environment =
  NOTION_ROOT_PAGE_ID :: "string option"
  NOTION_ROOT_PAGE_URL :: "string option"

text \<open>
  The first loop of \<^verbatim>\<open>initializeRootPages\<close>: \<^verbatim>\<open>normalizePageId\<close> is called outside any
  \<^verbatim>\<open>try\<close>, so what it throws leaves the constructor.
\<close>

fun addPageIds :: "string list \<Rightarrow> string set \<Rightarrow> error + string set" where
  "addPageIds [] allPageIds = Inr allPageIds"
| "addPageIds (pageId # rest) allPageIds =
     (if trim pageId \<noteq> [] then
        (case normalizePageId (trim pageId) of
           Inl e \<Rightarrow> Inl e
         | Inr n \<Rightarrow> addPageIds rest (insert n allPageIds))
      else addPageIds rest allPageIds)"

text \<open>
  The second loop: a URL that fails is reported on the console and skipped. The console is
  not part of the model.
\<close>

fun addPageUrls :: "string list \<Rightarrow> string set \<Rightarrow> string set" where
  "addPageUrls [] allPageIds = allPageIds"
| "addPageUrls (pageUrl # rest) allPageIds =
     (if trim pageUrl \<noteq> [] then
        (case extractPageIdFromUrl (trim pageUrl) of
           Inl e \<Rightarrow> addPageUrls rest allPageIds
         | Inr n \<Rightarrow> addPageUrls rest (insert n allPageIds))
      else addPageUrls rest allPageIds)"

text \<open>
  \<^verbatim>\<open>process.env.X?.split(',').map(s => s.trim()).filter(s => s.length > 0) || []\<close>
\<close>

definition envList :: "string option \<Rightarrow> string list" where
  "envList v =
     (case v of None \<Rightarrow> [] | Some s \<Rightarrow> filter (\<lambda>x. x \<noteq> []) (map trim (split_comma s)))"

fun addEnvPageIds :: "string list \<Rightarrow> string set \<Rightarrow> error + string set" where
  "addEnvPageIds [] allPageIds = Inr allPageIds"
| "addEnvPageIds (pageId # rest) allPageIds =
     (case normalizePageId pageId of
        Inl e \<Rightarrow> Inl e
      | Inr n \<Rightarrow> addEnvPageIds rest (insert n allPageIds))"

fun addEnvPageUrls :: "string list \<Rightarrow> string set \<Rightarrow> string set" where
  "addEnvPageUrls [] allPageIds = allPageIds"
| "addEnvPageUrls (pageUrl # rest) allPageIds =
     (case extractPageIdFromUrl pageUrl of
        Inl e \<Rightarrow> addEnvPageUrls rest allPageIds
      | Inr n \<Rightarrow> addEnvPageUrls rest (insert n allPageIds))"

definition initializeRootPages :: "options \<Rightarrow> environment \<Rightarrow> error + string set" where
  "initializeRootPages opts env =
     (case (case pageIds opts of None \<Rightarrow> Inr {} | Some ids \<Rightarrow> addPageIds ids {}) of
        Inl e \<Rightarrow> Inl e
      | Inr s1 \<Rightarrow>
          (let s2 = (case pageUrls opts of None \<Rightarrow> s1 | Some urls \<Rightarrow> addPageUrls urls s1) in
           if s2 = {} then
             (case addEnvPageIds (envList (NOTION_ROOT_PAGE_ID env)) s2 of
                Inl e \<Rightarrow> Inl e
              | Inr s3 \<Rightarrow> Inr (addEnvPageUrls (envList (NOTION_ROOT_PAGE_URL env)) s3))
           else Inr s2))"

text \<open>The constructor: a controller with an empty cache, unless building the root set throws.\<close>

definition newPageAccessController ::
  "options \<Rightarrow> http_client \<Rightarrow> environment \<Rightarrow> error + controller" where
  "newPageAccessController opts hc env =
     (case initializeRootPages opts env of
        Inl e \<Rightarrow> Inl e
      | Inr roots \<Rightarrow>
          Inr \<lparr>rootPageIds = roots, httpClient = hc, pageCache = Map.empty, calls = []\<rparr>)"

section \<open>Example configurations\<close>

text \<open>Three well-formed ids, and a controller as the constructor leaves it.\<close>

definition idX :: string where "idX = ''aaaaaaaa-aaaa-aaaa-aaaa-aaaaaaaaaaaa''"

definition idB1 :: string where "idB1 = ''bbbbbbbb-bbbb-bbbb-bbbb-bbbbbbbbbbbb''"

definition idP1 :: string where "idP1 = ''11111111-1111-1111-1111-111111111111''"

definition freshController :: "string set \<Rightarrow> http_client \<Rightarrow> controller" where
  "freshController roots hc =
     \<lparr>rootPageIds = roots, httpClient = hc, pageCache = Map.empty, calls = []\<rparr>"

text \<open>A provider on which every operation throws.\<close>

definition failingClient :: http_client where
  "failingClient op = Inl (HttpClientError ''object_not_found'')"

text \<open>A provider that knows the page \<open>idX\<close> and throws when asked for its parent page.\<close>

definition brokenParentClient :: http_client where
  "brokenParentClient op =
     (if op = retrieve_a_page idX then Inr (Some (page_id idB1))
      else Inl (HttpClientError ''rate_limited''))"

text \<open>
  A page cycle: \<open>idA\<close> names \<open>idB\<close> as its parent page and \<open>idB\<close> names \<open>idA\<close>.
\<close>

definition idA :: string where "idA = ''a0000000-0000-0000-0000-000000000000''"

definition idB :: string where "idB = ''b0000000-0000-0000-0000-000000000000''"

definition cycleClient :: http_client where
  "cycleClient op =
     (if op = retrieve_a_page idA then Inr (Some (page_id idB))
      else if op = retrieve_a_page idB then Inr (Some (page_id idA))
      else Inl (HttpClientError ''object_not_found''))"

text \<open>
  The provider of the example scenario: the parent of page \<open>idX\<close> is the block \<open>idB1\<close>,
  whose parent is the page \<open>idP1\<close>; nothing else exists. \<open>scenarioAfterX\<close> is the
  controller with root set \<open>{idP1}\<close> after \<open>isPageAllowed idX\<close>.
\<close>

definition scenarioClient :: http_client where
  "scenarioClient op =
     (if op = retrieve_a_page idX then Inr (Some (block_id idB1))
      else if op = retrieve_a_block idB1 then Inr (Some (page_id idP1))
      else Inl (HttpClientError ''object_not_found''))"

definition scenarioAfterX :: controller where
  "scenarioAfterX =
     \<lparr>rootPageIds = {idP1}, httpClient = scenarioClient,
      pageCache = [idP1 \<mapsto> \<lparr>parentId = None, isAllowed = True\<rparr>,
                   idX \<mapsto> \<lparr>parentId = Some idX, isAllowed = True\<rparr>],
      calls = [retrieve_a_page idX, retrieve_a_page idX, retrieve_a_block idB1]\<rparr>"

text \<open>A block that is its own parent.\<close>

definition selfParentClient :: http_client where
  "selfParentClient op =
     (if op = retrieve_a_block idB1 then Inr (Some (block_id idB1))
      else Inl (HttpClientError ''object_not_found''))"

text \<open>
  \<open>blockChain hc bs p\<close>: each block of \<open>bs\<close> has the next one as its parent, and the parent
  of the last is the page \<open>p\<close>.
\<close>

fun blockChain :: "http_client \<Rightarrow> string list \<Rightarrow> string \<Rightarrow> bool" where
  "blockChain hc [] p = False"
| "blockChain hc [b] p = (hc (retrieve_a_block b) = Inr (Some (page_id p)))"
| "blockChain hc (b # b' # bs) p =
     (hc (retrieve_a_block b) = Inr (Some (block_id b')) \<and> blockChain hc (b' # bs) p)"

text \<open>Three blocks in a chain below the page \<open>idP1\<close>.\<close>

definition chainClient :: http_client where
  "chainClient op =
     (if op = retrieve_a_block idA then Inr (Some (block_id idB))
      else if op = retrieve_a_block idB then Inr (Some (block_id idB1))
      else if op = retrieve_a_block idB1 then Inr (Some (page_id idP1))
      else Inl (HttpClientError ''object_not_found''))"

section \<open>One hop of the container resolution\<close>

text \<open>
  A view of \<open>resolveContainer\<close> used in the proofs: the operation a call executes, the
  container it recurses on if it does, and its result if it does not.
\<close>

definition containerOperation :: "container \<Rightarrow> operation" where
  "containerOperation t =
     (case t of block b \<Rightarrow> retrieve_a_block b | database d \<Rightarrow> retrieve_a_database d)"

definition nextContainer :: "http_client \<Rightarrow> container \<Rightarrow> container option" where
  "nextContainer hc t =
     (case t of
        block b \<Rightarrow>
          (case hc (retrieve_a_block b) of
             Inr (Some (block_id b')) \<Rightarrow> Some (block b')
           | Inr (Some (database_id d)) \<Rightarrow> Some (database d)
           | _ \<Rightarrow> None)
      | database d \<Rightarrow>
          (case hc (retrieve_a_database d) of
             Inr (Some (block_id b')) \<Rightarrow> Some (block b')
           | _ \<Rightarrow> None))"

definition containerResult :: "http_client \<Rightarrow> container \<Rightarrow> string option" where
  "containerResult hc t =
     (case hc (containerOperation t) of Inr (Some (page_id p)) \<Rightarrow> Some p | _ \<Rightarrow> None)"

section \<open>Forms of identifiers\<close>

text \<open>
  The canonical form of the specification: a 36-character UUID string, groups of 8, 4, 4, 4
  and 12 lower-case hexadecimal digits separated by hyphens.
\<close>

definition isLowerHexDigit :: "char \<Rightarrow> bool" where
  "isLowerHexDigit c =
     (let n = (of_char c :: nat) in (48 \<le> n \<and> n \<le> 57) \<or> (97 \<le> n \<and> n \<le> 102))"

definition isCanonicalId :: "string \<Rightarrow> bool" where
  "isCanonicalId s =
     (length s = 36 \<and> list_all isLowerHexDigit (slice 0 8 s) \<and> slice 8 9 s = ''-''
      \<and> list_all isLowerHexDigit (slice 9 13 s) \<and> slice 13 14 s = ''-''
      \<and> list_all isLowerHexDigit (slice 14 18 s) \<and> slice 18 19 s = ''-''
      \<and> list_all isLowerHexDigit (slice 19 23 s) \<and> slice 23 24 s = ''-''
      \<and> list_all isLowerHexDigit (slice 24 36 s))"

text \<open>
  The shape without the test for hexadecimal digits: 36 characters, the hyphens in their
  places, and no hyphen or upper-case letter anywhere else.
\<close>

definition isIdChar :: "char \<Rightarrow> bool" where
  "isIdChar c = (c \<noteq> CHR ''-'' \<and> \<not> (65 \<le> (of_char c :: nat) \<and> (of_char c :: nat) \<le> 90))"

definition hasIdShape :: "string \<Rightarrow> bool" where
  "hasIdShape s =
     (length s = 36 \<and> list_all isIdChar (slice 0 8 s) \<and> slice 8 9 s = ''-''
      \<and> list_all isIdChar (slice 9 13 s) \<and> slice 13 14 s = ''-''
      \<and> list_all isIdChar (slice 14 18 s) \<and> slice 18 19 s = ''-''
      \<and> list_all isIdChar (slice 19 23 s) \<and> slice 23 24 s = ''-''
      \<and> list_all isIdChar (slice 24 36 s))"

text \<open>The page ids the provider names as a parent in its responses to the operations.\<close>

definition returnedPageIds :: "http_client \<Rightarrow> operation list \<Rightarrow> string set" where
  "returnedPageIds hc ops =
     set (concat (map (\<lambda>op. case hc op of Inr (Some (page_id k)) \<Rightarrow> [k] | _ \<Rightarrow> []) ops))"

text \<open>
  A provider that names the parent of page \<open>idX\<close> by the id of \<open>idP1\<close> without hyphens,
  and the controller with root set \<open>{idP1}\<close> after \<open>isPageAllowed idX\<close>.
\<close>

definition unhyphenatedP1 :: string where
  "unhyphenatedP1 = ''11111111111111111111111111111111''"

definition unhyphenatedClient :: http_client where
  "unhyphenatedClient op =
     (if op = retrieve_a_page idX then Inr (Some (page_id unhyphenatedP1))
      else if op = retrieve_a_page unhyphenatedP1 then Inr (Some other_type)
      else Inl (HttpClientError ''object_not_found''))"

definition unhyphenatedAfterX :: controller where
  "unhyphenatedAfterX =
     \<lparr>rootPageIds = {idP1}, httpClient = unhyphenatedClient,
      pageCache = [unhyphenatedP1 \<mapsto> \<lparr>parentId = None, isAllowed = False\<rparr>,
                   idX \<mapsto> \<lparr>parentId = Some idX, isAllowed = False\<rparr>],
      calls = [retrieve_a_page idX, retrieve_a_page idX, retrieve_a_page unhyphenatedP1]\<rparr>"

text \<open>An environment with neither variable set.\<close>

definition noEnvironment :: environment where
  "noEnvironment = \<lparr>NOTION_ROOT_PAGE_ID = None, NOTION_ROOT_PAGE_URL = None\<rparr>"

section \<open>Parent chains\<close>

text \<open>
  The hierarchy of the specification: a resource is a page, a database or a block, written
  here as the operation that retrieves it, and has at most one parent, the one the provider
  reports. \<open>reportedParent\<close> is that parent link, as a resource; there is none when the
  response has no parent, names a parent of another type, or the retrieval fails.
\<close>

definition resourceId :: "operation \<Rightarrow> string" where
  "resourceId r =
     (case r of retrieve_a_page i \<Rightarrow> i | retrieve_a_block i \<Rightarrow> i | retrieve_a_database i \<Rightarrow> i)"

definition succeeds :: "http_client \<Rightarrow> operation \<Rightarrow> bool" where
  "succeeds hc op = (case hc op of Inl e \<Rightarrow> False | Inr r \<Rightarrow> True)"

definition reportedParent :: "http_client \<Rightarrow> operation \<Rightarrow> operation option" where
  "reportedParent hc r =
     (case hc r of
        Inl e \<Rightarrow> None
      | Inr None \<Rightarrow> None
      | Inr (Some (page_id p)) \<Rightarrow> Some (retrieve_a_page p)
      | Inr (Some (block_id b)) \<Rightarrow> Some (retrieve_a_block b)
      | Inr (Some (database_id d)) \<Rightarrow> Some (retrieve_a_database d)
      | Inr (Some other_type) \<Rightarrow> None)"

text \<open>
  The parent chain of \<open>r\<close>, as the provider reports it, reaches a member of the root set
  after exactly \<open>k\<close> hops.
\<close>

fun chainReachesRoot :: "http_client \<Rightarrow> string set \<Rightarrow> nat \<Rightarrow> operation \<Rightarrow> bool" where
  "chainReachesRoot hc roots 0 r = (resourceId r \<in> roots)"
| "chainReachesRoot hc roots (Suc k) r =
     (case reportedParent hc r of
        None \<Rightarrow> False
      | Some r' \<Rightarrow> chainReachesRoot hc roots k r')"

text \<open>
  The chain as the controller follows it. Two reported links are not followed: the link
  from a database to a database (\<^verbatim>\<open>getDatabaseParent\<close> looks for a page or a block only),
  and a link to the page whose id is the empty string (a falsy \<^verbatim>\<open>parentId\<close>). Every
  other reported link is followed.
\<close>

definition followedParent :: "http_client \<Rightarrow> operation \<Rightarrow> operation option" where
  "followedParent hc r =
     (case reportedParent hc r of
        None \<Rightarrow> None
      | Some (retrieve_a_page p) \<Rightarrow> if p = [] then None else Some (retrieve_a_page p)
      | Some (retrieve_a_block b) \<Rightarrow> Some (retrieve_a_block b)
      | Some (retrieve_a_database d) \<Rightarrow>
          (case r of retrieve_a_database i \<Rightarrow> None | _ \<Rightarrow> Some (retrieve_a_database d)))"

definition isPage :: "operation \<Rightarrow> bool" where
  "isPage r = (case r of retrieve_a_page p \<Rightarrow> True | _ \<Rightarrow> False)"

definition isRootPage :: "string set \<Rightarrow> operation \<Rightarrow> bool" where
  "isRootPage roots r = (case r of retrieve_a_page p \<Rightarrow> p \<in> roots | _ \<Rightarrow> False)"

text \<open>
  The first page of the followed chain of \<open>r\<close> that is a member of the root set is \<open>k\<close>
  hops away.
\<close>

fun chainReachesRootPage :: "http_client \<Rightarrow> string set \<Rightarrow> nat \<Rightarrow> operation \<Rightarrow> bool" where
  "chainReachesRootPage hc roots 0 r = isRootPage roots r"
| "chainReachesRootPage hc roots (Suc k) r =
     (\<not> isRootPage roots r \<and>
      (case followedParent hc r of
         None \<Rightarrow> False
       | Some r' \<Rightarrow> chainReachesRootPage hc roots k r'))"

text \<open>
  The followed chain of \<open>r\<close> stops after \<open>k\<close> hops, at a resource from which no link is
  followed, and no page on it is a member of the root set. \<open>chainEndsWithoutRootPage\<close>:
  it stops at a resource that the provider serves; \<open>chainBreaks\<close>: it stops at a
  resource whose retrieval throws.
\<close>

fun chainStops :: "http_client \<Rightarrow> string set \<Rightarrow> nat \<Rightarrow> operation \<Rightarrow> bool" where
  "chainStops hc roots 0 r = (\<not> isRootPage roots r \<and> followedParent hc r = None)"
| "chainStops hc roots (Suc k) r =
     (\<not> isRootPage roots r \<and>
      (case followedParent hc r of
         None \<Rightarrow> False
       | Some r' \<Rightarrow> chainStops hc roots k r'))"

fun chainEndsWithoutRootPage ::
  "http_client \<Rightarrow> string set \<Rightarrow> nat \<Rightarrow> operation \<Rightarrow> bool" where
  "chainEndsWithoutRootPage hc roots 0 r =
     (\<not> isRootPage roots r \<and> succeeds hc r \<and> followedParent hc r = None)"
| "chainEndsWithoutRootPage hc roots (Suc k) r =
     (\<not> isRootPage roots r \<and>
      (case followedParent hc r of
         None \<Rightarrow> False
       | Some r' \<Rightarrow> chainEndsWithoutRootPage hc roots k r'))"

fun chainBreaks :: "http_client \<Rightarrow> string set \<Rightarrow> nat \<Rightarrow> operation \<Rightarrow> bool" where
  "chainBreaks hc roots 0 r = (\<not> isRootPage roots r \<and> \<not> succeeds hc r)"
| "chainBreaks hc roots (Suc k) r =
     (\<not> isRootPage roots r \<and>
      (case followedParent hc r of
         None \<Rightarrow> False
       | Some r' \<Rightarrow> chainBreaks hc roots k r'))"

text \<open>
  The followed chain of a block or database \<open>r\<close> arrives at a page after \<open>k\<close> hops, and
  stops after \<open>k\<close> hops before any page.
\<close>

fun leadsToPage :: "http_client \<Rightarrow> nat \<Rightarrow> operation \<Rightarrow> bool" where
  "leadsToPage hc 0 r = isPage r"
| "leadsToPage hc (Suc k) r =
     (\<not> isPage r \<and>
      (case followedParent hc r of
         None \<Rightarrow> False
       | Some r' \<Rightarrow> leadsToPage hc k r'))"

fun stopsBeforePage :: "http_client \<Rightarrow> nat \<Rightarrow> operation \<Rightarrow> bool" where
  "stopsBeforePage hc 0 r = (\<not> isPage r \<and> followedParent hc r = None)"
| "stopsBeforePage hc (Suc k) r =
     (\<not> isPage r \<and>
      (case followedParent hc r of
         None \<Rightarrow> False
       | Some r' \<Rightarrow> stopsBeforePage hc k r'))"

text \<open>
  The resource an id names, in the order of the probes: the page, if the provider serves
  one under the id; else the database, if the chain of the database arrives at a page
  (after \<open>j\<close> hops); else the block, if the chain of the database stops before any page
  (after \<open>j\<close> hops), which is also the case when the provider serves no such database.
\<close>

definition resourceOf :: "http_client \<Rightarrow> nat \<Rightarrow> string \<Rightarrow> operation option" where
  "resourceOf hc j i =
     (if succeeds hc (retrieve_a_page i) then Some (retrieve_a_page i)
      else if leadsToPage hc j (retrieve_a_database i) then Some (retrieve_a_database i)
      else if stopsBeforePage hc j (retrieve_a_database i) then Some (retrieve_a_block i)
      else None)"

text \<open>The ids of a database, of a second database and of a second page.\<close>

definition idD1 :: string where "idD1 = ''dddddddd-dddd-dddd-dddd-dddddddddddd''"

definition idD2 :: string where "idD2 = ''eeeeeeee-eeee-eeee-eeee-eeeeeeeeeeee''"

definition idP2 :: string where "idP2 = ''22222222-2222-2222-2222-222222222222''"

text \<open>
  A provider where the page \<open>idX\<close> lies in the database \<open>idD1\<close>, which lies in the
  workspace.
\<close>

definition databaseRootClient :: http_client where
  "databaseRootClient op =
     (if op = retrieve_a_page idX then Inr (Some (database_id idD1))
      else if op = retrieve_a_database idD1 then Inr (Some other_type)
      else Inl (HttpClientError ''object_not_found''))"

text \<open>
  A provider where the database \<open>idD1\<close> lies in the page \<open>idP2\<close>, which has no parent.
\<close>

definition otherPageClient :: http_client where
  "otherPageClient op =
     (if op = retrieve_a_database idD1 then Inr (Some (page_id idP2))
      else if op = retrieve_a_page idP2 then Inr None
      else Inl (HttpClientError ''object_not_found''))"

text \<open>
  A provider where the page \<open>idX\<close> lies in the database \<open>idD1\<close>, which lies in the
  database \<open>idD2\<close>, which lies in the page \<open>idP1\<close>.
\<close>

definition nestedDatabaseClient :: http_client where
  "nestedDatabaseClient op =
     (if op = retrieve_a_page idX then Inr (Some (database_id idD1))
      else if op = retrieve_a_database idD1 then Inr (Some (database_id idD2))
      else if op = retrieve_a_database idD2 then Inr (Some (page_id idP1))
      else if op = retrieve_a_page idP1 then Inr None
      else Inl (HttpClientError ''object_not_found''))"

text \<open>
  A provider that serves the id \<open>idB1\<close> as a block of the page \<open>idP1\<close> and not as a page,
  and names it as the parent page of the page \<open>idX\<close>. With the root set \<open>{idP1}\<close>,
  \<open>flipAfterB1\<close> is the controller after \<open>isPageAllowed idB1\<close>, and \<open>flipAfterX\<close> the
  controller after \<open>isPageAllowed idX\<close> has followed.
\<close>

definition flipClient :: http_client where
  "flipClient op =
     (if op = retrieve_a_block idB1 then Inr (Some (page_id idP1))
      else if op = retrieve_a_page idX then Inr (Some (page_id idB1))
      else Inl (HttpClientError ''object_not_found''))"

definition flipAfterB1 :: controller where
  "flipAfterB1 =
     \<lparr>rootPageIds = {idP1}, httpClient = flipClient,
      pageCache = [idP1 \<mapsto> \<lparr>parentId = None, isAllowed = True\<rparr>,
                   idB1 \<mapsto> \<lparr>parentId = Some idP1, isAllowed = True\<rparr>],
      calls = [retrieve_a_page idB1, retrieve_a_database idB1, retrieve_a_block idB1]\<rparr>"

definition flipAfterX :: controller where
  "flipAfterX =
     \<lparr>rootPageIds = {idP1}, httpClient = flipClient,
      pageCache = [idP1 \<mapsto> \<lparr>parentId = None, isAllowed = True\<rparr>,
                   idB1 \<mapsto> \<lparr>parentId = None, isAllowed = False\<rparr>,
                   idX \<mapsto> \<lparr>parentId = Some idX, isAllowed = False\<rparr>],
      calls = [retrieve_a_page idB1, retrieve_a_database idB1, retrieve_a_block idB1,
               retrieve_a_page idX, retrieve_a_page idX, retrieve_a_page idB1]\<rparr>"

text \<open>
  The calls of \<^verbatim>\<open>isPageAllowed\<close> that a client makes one after the other, each on the
  controller the one before it left; the results are dropped. \<open>None\<close>: one of them does
  not return.
\<close>

fun callsInSequence :: "controller \<Rightarrow> string list \<Rightarrow> controller option" where
  "callsInSequence c [] = Some c"
| "callsInSequence c (y # ys) =
     (case isPageAllowed c y of
        None \<Rightarrow> None
      | Some (r, c') \<Rightarrow> callsInSequence c' ys)"

section \<open>Properties of identifier normalisation\<close>

lemma length_toLowerCase: "length (toLowerCase s) = length s"
  by (simp add: toLowerCase_def)

lemma toLowerCaseChar_cases [case_names upper other]:
  obtains "(65 \<le> (of_char c :: nat) \<and> (of_char c :: nat) \<le> 90)
             \<or> (192 \<le> (of_char c :: nat) \<and> (of_char c :: nat) \<le> 222 \<and> (of_char c :: nat) \<noteq> 215)"
      "(of_char (toLowerCaseChar c) :: nat) = of_char c + 32"
  | "\<not> (65 \<le> (of_char c :: nat) \<and> (of_char c :: nat) \<le> 90)" "toLowerCaseChar c = c"
proof (cases "(65 \<le> (of_char c :: nat) \<and> (of_char c :: nat) \<le> 90)
             \<or> (192 \<le> (of_char c :: nat) \<and> (of_char c :: nat) \<le> 222 \<and> (of_char c :: nat) \<noteq> 215)")
  case True
  then have lt: "(of_char c :: nat) + 32 < 256" by auto
  from True have "toLowerCaseChar c = char_of ((of_char c :: nat) + 32)"
    by (simp add: toLowerCaseChar_def Let_def)
  then have "(of_char (toLowerCaseChar c) :: nat) = ((of_char c :: nat) + 32) mod 256"
    by (simp add: of_char_of)
  with lt have "(of_char (toLowerCaseChar c) :: nat) = of_char c + 32" by simp
  with True that(1) show ?thesis by blast
next
  case False
  then have "toLowerCaseChar c = c" by (auto simp: toLowerCaseChar_def Let_def)
  with False that(2) show ?thesis by blast
qed

lemma toLowerCaseChar_dash: "toLowerCaseChar c = CHR ''-'' \<longleftrightarrow> c = CHR ''-''"
proof (cases c rule: toLowerCaseChar_cases)
  case upper
  from upper(2) have "(of_char (toLowerCaseChar c) :: nat) \<noteq> of_char (CHR ''-'')"
    using upper(1) by auto
  then have "toLowerCaseChar c \<noteq> CHR ''-''" by auto
  moreover from upper(1) have "c \<noteq> CHR ''-''" by auto
  ultimately show ?thesis by simp
next
  case other
  then show ?thesis by simp
qed

lemma removeDashes_toLowerCase:
  "removeDashes (toLowerCase s) = toLowerCase (removeDashes s)"
  by (induction s) (auto simp: removeDashes_def toLowerCase_def toLowerCaseChar_dash)

lemma removeDashes_idem: "removeDashes (removeDashes s) = removeDashes s"
  by (simp add: removeDashes_def)

lemma removeDashes_append: "removeDashes (a @ b) = removeDashes a @ removeDashes b"
  by (simp add: removeDashes_def)

lemma removeDashes_Cons:
  "removeDashes (c # s) = (if c = CHR ''-'' then removeDashes s else c # removeDashes s)"
  by (simp add: removeDashes_def)

lemma removeDashes_clean: "removeDashes s = s \<Longrightarrow> removeDashes (take n s) = take n s"
  "removeDashes s = s \<Longrightarrow> removeDashes (drop n s) = drop n s"
  by (metis removeDashes_def filter_id_conv in_set_takeD, metis removeDashes_def filter_id_conv in_set_dropD)

lemma normalizePageId_Inl:
  "(\<exists>e. normalizePageId raw = Inl e) \<longleftrightarrow> length (removeDashes raw) \<noteq> 32"
  by (simp add: normalizePageId_def Let_def length_toLowerCase)

lemma normalizePageId_shape:
  assumes "normalizePageId raw = Inr r"
  shows "length r = 36" and "removeDashes r = toLowerCase (removeDashes raw)"
    and "r ! 8 = CHR ''-''" and "r ! 13 = CHR ''-''" and "r ! 18 = CHR ''-''" and "r ! 23 = CHR ''-''"
proof -
  define cl where "cl = toLowerCase (removeDashes raw)"
  from assms have len: "length cl = 32"
    and r: "r = slice 0 8 cl @ ''-'' @ slice 8 12 cl @ ''-'' @ slice 12 16 cl
                @ ''-'' @ slice 16 20 cl @ ''-'' @ drop 20 cl"
    by (auto simp: normalizePageId_def Let_def cl_def split: if_splits)
  have cc: "removeDashes cl = cl"
    by (simp add: cl_def removeDashes_toLowerCase[symmetric] removeDashes_idem)
  show "length r = 36" using len by (simp add: r slice_def)
  have "removeDashes r = take 8 cl @ take 4 (drop 8 cl) @ take 4 (drop 12 cl) @ take 4 (drop 16 cl) @ drop 20 cl"
    using cc by (simp add: r slice_def removeDashes_append removeDashes_clean removeDashes_Cons)
  also have "\<dots> = cl"
    using append_take_drop_id[of 4 "drop 16 cl"] append_take_drop_id[of 4 "drop 12 cl"]
      append_take_drop_id[of 4 "drop 8 cl"] append_take_drop_id[of 8 cl]
    by simp
  finally show "removeDashes r = toLowerCase (removeDashes raw)" by (simp add: cl_def)
  show "r ! 8 = CHR ''-''" "r ! 13 = CHR ''-''" "r ! 18 = CHR ''-''" "r ! 23 = CHR ''-''"
    using len by (simp_all add: r slice_def nth_append)
qed


text \<open>
  C4, as the code has it: \<open>normalizePageId\<close> throws exactly when the input, without its
  hyphens and in lower case, is not 32 characters long, and what it throws names the input;
  it makes no test for hexadecimal digits. When it returns, the result has 36 characters,
  a hyphen at each of the offsets 8, 13, 18 and 23, and is the cleaned input once its
  hyphens are taken out again (the groups are 8, 4, 4, 4 and 12 characters long).
\<close>

theorem normalizePageId_rejects_by_length_only:
  "((\<exists>e. normalizePageId raw = Inl e) \<longleftrightarrow> length (toLowerCase (removeDashes raw)) \<noteq> 32)
   \<and> (\<forall>e. normalizePageId raw = Inl e \<longrightarrow> e = InvalidPageId raw)
   \<and> (\<forall>r. normalizePageId raw = Inr r \<longrightarrow>
          length r = 36 \<and> removeDashes r = toLowerCase (removeDashes raw)
          \<and> r ! 8 = CHR ''-'' \<and> r ! 13 = CHR ''-'' \<and> r ! 18 = CHR ''-'' \<and> r ! 23 = CHR ''-'')"
proof (intro conjI allI impI)
  show "(\<exists>e. normalizePageId raw = Inl e) \<longleftrightarrow> length (toLowerCase (removeDashes raw)) \<noteq> 32"
    by (simp add: normalizePageId_Inl length_toLowerCase)
next
  fix e assume "normalizePageId raw = Inl e"
  then show "e = InvalidPageId raw"
    by (auto simp: normalizePageId_def Let_def split: if_splits)
next
  fix r assume h: "normalizePageId raw = Inr r"
  show "length r = 36" "removeDashes r = toLowerCase (removeDashes raw)"
    "r ! 8 = CHR ''-''" "r ! 13 = CHR ''-''" "r ! 18 = CHR ''-''" "r ! 23 = CHR ''-''"
    using normalizePageId_shape[OF h] by blast+
qed

text \<open>An id of the specification's example that normalises, and one that is too short.\<close>

theorem normalizePageId_rejects_by_length_only_witness:
  "normalizePageId ''ABC12345-ABC1-2345-ABC1-2345ABC12345'' = Inr ''abc12345-abc1-2345-abc1-2345abc12345''
   \<and> length ''abc12345-abc1-2345-abc1-2345abc12345'' = 36
   \<and> removeDashes ''abc12345-abc1-2345-abc1-2345abc12345''
       = toLowerCase (removeDashes ''ABC12345-ABC1-2345-ABC1-2345ABC12345'')
   \<and> normalizePageId ''abc123'' = Inl (InvalidPageId ''abc123'')
   \<and> length (toLowerCase (removeDashes ''abc123'')) \<noteq> 32"
proof -
  have h: "normalizePageId ''ABC12345-ABC1-2345-ABC1-2345ABC12345''
            = Inr ''abc12345-abc1-2345-abc1-2345abc12345''"
    by code_simp
  have k: "normalizePageId ''abc123'' = Inl (InvalidPageId ''abc123'')"
    by code_simp
  from normalizePageId_rejects_by_length_only[of "''ABC12345-ABC1-2345-ABC1-2345ABC12345''"] h
  have a: "length ''abc12345-abc1-2345-abc1-2345abc12345'' = 36
     \<and> removeDashes ''abc12345-abc1-2345-abc1-2345abc12345''
       = toLowerCase (removeDashes ''ABC12345-ABC1-2345-ABC1-2345ABC12345'')"
    by blast
  from normalizePageId_rejects_by_length_only[of "''abc123''"] k
  have b: "length (toLowerCase (removeDashes ''abc123'')) \<noteq> 32"
    by blast
  from h k a b show ?thesis by blast
qed

text \<open>
  C4, as stated, fails: an input of 32 letters \<open>z\<close> is not hexadecimal and is accepted.
\<close>

theorem normalizePageId_accepts_non_hex:
  "\<not> list_all isHexDigit (toLowerCase (removeDashes ''zzzzzzzzzzzzzzzzzzzzzzzzzzzzzzzz''))
   \<and> normalizePageId ''zzzzzzzzzzzzzzzzzzzzzzzzzzzzzzzz'' = Inr ''zzzzzzzz-zzzz-zzzz-zzzz-zzzzzzzzzzzz''"
  by code_simp

section \<open>Unfolding the controller\<close>

lemma cacheSet_fields [simp]:
  "rootPageIds (cacheSet k e c) = rootPageIds c"
  "httpClient (cacheSet k e c) = httpClient c"
  "calls (cacheSet k e c) = calls c"
  "pageCache (cacheSet k e c) = (pageCache c)(k \<mapsto> e)"
  by (simp_all add: cacheSet_def)

lemma cacheVisitedAllowed_fields [simp]:
  "rootPageIds (cacheVisitedAllowed vs c) = rootPageIds c"
  "httpClient (cacheVisitedAllowed vs c) = httpClient c"
  "calls (cacheVisitedAllowed vs c) = calls c"
  by (induction vs arbitrary: c; simp add: cacheVisitedAllowed_def)+

lemma cacheVisitedDenied_fields [simp]:
  "rootPageIds (cacheVisitedDenied vs c) = rootPageIds c"
  "httpClient (cacheVisitedDenied vs c) = httpClient c"
  "calls (cacheVisitedDenied vs c) = calls c"
  by (induction vs arbitrary: c; simp add: cacheVisitedDenied_def)+



lemma catchReturnNull_simps [simp]:
  "catchReturnNull (Inl e, log) = (Inr None, log)"
  "catchReturnNull (Inr v, log) = (Inr v, log)"
  by (simp_all add: catchReturnNull_def)

lemma catchReturnNull_returns: "\<exists>v log. catchReturnNull outcome = (Inr v, log)"
  by (cases outcome; cases "fst outcome") auto

section \<open>Unfolding the resolution of blocks and databases\<close>

lemma resolveContainer_never_throws:
  assumes "resolveContainer hc t log = Some (r, log')"
  shows "\<exists>v. r = Inr v"
proof -
  from assms obtain outcome where "catchReturnNull outcome = (r, log')"
    by (subst (asm) resolveContainer.simps) (auto simp only: bind_eq_Some_conv option.inject)
  with catchReturnNull_returns[of outcome] show ?thesis by auto
qed

lemma resolveContainer_catch:
  "Option.bind (resolveContainer hc t log) (\<lambda>outcome. Some (catchReturnNull outcome))
     = resolveContainer hc t log"
proof (cases "resolveContainer hc t log")
  case None
  then show ?thesis by simp
next
  case (Some y)
  obtain r log' where y: "y = (r, log')" by (cases y)
  from resolveContainer_never_throws[OF Some[unfolded y]] obtain v where "r = Inr v" ..
  with Some y show ?thesis by simp
qed

lemma resolveContainer_body:
  "Option.bind
     (case t of
        block blockId \<Rightarrow>
          (case executeOperation hc (retrieve_a_block blockId) log of
             (Inl e, log') \<Rightarrow> Some (Inl e, log')
           | (Inr None, log') \<Rightarrow> Some (Inr None, log')
           | (Inr (Some (page_id p)), log') \<Rightarrow> Some (Inr (Some p), log')
           | (Inr (Some (block_id b)), log') \<Rightarrow> f hc (block b) log'
           | (Inr (Some (database_id d)), log') \<Rightarrow> f hc (database d) log'
           | (Inr (Some other_type), log') \<Rightarrow> Some (Inr None, log'))
      | database databaseId \<Rightarrow>
          (case executeOperation hc (retrieve_a_database databaseId) log of
             (Inl e, log') \<Rightarrow> Some (Inl e, log')
           | (Inr None, log') \<Rightarrow> Some (Inr None, log')
           | (Inr (Some (page_id p)), log') \<Rightarrow> Some (Inr (Some p), log')
           | (Inr (Some (block_id b)), log') \<Rightarrow> f hc (block b) log'
           | (Inr (Some (database_id d)), log') \<Rightarrow> Some (Inr None, log')
           | (Inr (Some other_type), log') \<Rightarrow> Some (Inr None, log')))
     (\<lambda>outcome. Some (catchReturnNull outcome))
   = (case nextContainer hc t of
        None \<Rightarrow> Some (Inr (containerResult hc t), log @ [containerOperation t])
      | Some t' \<Rightarrow>
          Option.bind (f hc t' (log @ [containerOperation t]))
            (\<lambda>outcome. Some (catchReturnNull outcome)))"
  by (cases t)
     (simp_all add: nextContainer_def containerOperation_def containerResult_def
        executeOperation_def split: sum.split option.split parent.split)

lemma resolveContainer_unfold:
  "resolveContainer hc t log
   = (case nextContainer hc t of
        None \<Rightarrow> Some (Inr (containerResult hc t), log @ [containerOperation t])
      | Some t' \<Rightarrow> resolveContainer hc t' (log @ [containerOperation t]))"
  by (subst resolveContainer.simps)
     (simp add: resolveContainer_body resolveContainer_catch cong: option.case_cong)

lemma resolveContainer_hop:
  "nextContainer hc t = Some t' \<Longrightarrow>
   resolveContainer hc t log = resolveContainer hc t' (log @ [containerOperation t])"
  by (subst resolveContainer_unfold) simp

lemma resolveContainer_stop:
  "nextContainer hc t = None \<Longrightarrow>
   resolveContainer hc t log = Some (Inr (containerResult hc t), log @ [containerOperation t])"
  by (subst resolveContainer_unfold) simp

lemma resolveContainer_block:
  "resolveContainer hc (block b) log =
     (case hc (retrieve_a_block b) of
        Inl e \<Rightarrow> Some (Inr None, log @ [retrieve_a_block b])
      | Inr None \<Rightarrow> Some (Inr None, log @ [retrieve_a_block b])
      | Inr (Some (page_id p)) \<Rightarrow> Some (Inr (Some p), log @ [retrieve_a_block b])
      | Inr (Some (block_id b')) \<Rightarrow> resolveContainer hc (block b') (log @ [retrieve_a_block b])
      | Inr (Some (database_id d)) \<Rightarrow> resolveContainer hc (database d) (log @ [retrieve_a_block b])
      | Inr (Some other_type) \<Rightarrow> Some (Inr None, log @ [retrieve_a_block b]))"
  by (subst resolveContainer_unfold)
     (simp add: nextContainer_def containerOperation_def containerResult_def
        split: sum.split option.split parent.split)

lemma resolveContainer_database:
  "resolveContainer hc (database d) log =
     (case hc (retrieve_a_database d) of
        Inl e \<Rightarrow> Some (Inr None, log @ [retrieve_a_database d])
      | Inr None \<Rightarrow> Some (Inr None, log @ [retrieve_a_database d])
      | Inr (Some (page_id p)) \<Rightarrow> Some (Inr (Some p), log @ [retrieve_a_database d])
      | Inr (Some (block_id b')) \<Rightarrow> resolveContainer hc (block b') (log @ [retrieve_a_database d])
      | Inr (Some (database_id d')) \<Rightarrow> Some (Inr None, log @ [retrieve_a_database d])
      | Inr (Some other_type) \<Rightarrow> Some (Inr None, log @ [retrieve_a_database d]))"
  by (subst resolveContainer_unfold)
     (simp add: nextContainer_def containerOperation_def containerResult_def
        split: sum.split option.split parent.split)

lemma resolveContainer_throws:
  "hc (containerOperation t) = Inl e \<Longrightarrow>
   resolveContainer hc t log = Some (Inr None, log @ [containerOperation t])"
  by (cases t)
     (simp_all add: containerOperation_def resolveContainer_block resolveContainer_database)

lemma resolveContainer_cases_induct [consumes 1, case_names stop hop]:
  assumes run: "resolveContainer hc t log = Some y"
    and stop: "\<And>t log. nextContainer hc t = None \<Longrightarrow>
                 P t log (Inr (containerResult hc t), log @ [containerOperation t])"
    and hop: "\<And>t t' log y. nextContainer hc t = Some t' \<Longrightarrow>
                 P t' (log @ [containerOperation t]) y \<Longrightarrow> P t log y"
  shows "P t log y"
proof -
  have "hc = hc \<longrightarrow> P t log y \<and> (\<exists>v. fst y = Inr v)"
    apply (rule resolveContainer.raw_induct
        [rotated 1, where P = "\<lambda>hc' t log y. hc' = hc \<longrightarrow> P t log y \<and> (\<exists>v. fst y = Inr v)"])
     apply (rule run)
    subgoal premises prems for f hc' t log y
    proof
      assume eq: "hc' = hc"
      note body = prems(2)[unfolded resolveContainer_body eq]
      show "P t log y \<and> (\<exists>v. fst y = Inr v)"
      proof (cases "nextContainer hc t")
        case None
        with body have "y = (Inr (containerResult hc t), log @ [containerOperation t])"
          by simp
        with stop[OF None] show ?thesis by simp
      next
        case (Some t')
        with body obtain y0 where y0: "f hc t' (log @ [containerOperation t]) = Some y0"
          and y: "y = catchReturnNull y0"
          by (auto simp: bind_eq_Some_conv)
        from prems(1)[OF y0] have p: "P t' (log @ [containerOperation t]) y0"
          and v: "\<exists>v. fst y0 = Inr v" by simp_all
        from v y have "y = y0" by (cases y0) auto
        with hop[OF Some] p v show ?thesis by simp
      qed
    qed
    done
  then show ?thesis by simp
qed

section \<open>Unfolding the walk\<close>

lemma checkPageHierarchyLoop_cases_induct [consumes 1, case_names exit root error step break]:
  assumes run: "checkPageHierarchyLoop c visited cur = Some r"
    and exit: "\<And>c visited cur. \<not> truthy cur \<or> the cur \<in> set visited \<Longrightarrow>
                 P c visited cur (Inr False, cacheVisitedDenied visited c)"
    and root: "\<And>c visited p. p \<noteq> [] \<Longrightarrow> p \<notin> set visited \<Longrightarrow> p \<in> rootPageIds c \<Longrightarrow>
                 P c visited (Some p) (Inr True, cacheVisitedAllowed (visited @ [p]) c)"
    and error: "\<And>c visited p e log. p \<noteq> [] \<Longrightarrow> p \<notin> set visited \<Longrightarrow> p \<notin> rootPageIds c \<Longrightarrow>
                 getParentPageId (httpClient c) p (calls c) = Some (Inl e, log) \<Longrightarrow>
                 P c visited (Some p)
                   (Inr False, cacheSet p \<lparr>parentId = None, isAllowed = False\<rparr> (c\<lparr>calls := log\<rparr>))"
    and step: "\<And>c visited p q log r. p \<noteq> [] \<Longrightarrow> p \<notin> set visited \<Longrightarrow> p \<notin> rootPageIds c \<Longrightarrow>
                 getParentPageId (httpClient c) p (calls c) = Some (Inr q, log) \<Longrightarrow> truthy q \<Longrightarrow>
                 P (cacheSet p \<lparr>parentId = q, isAllowed = False\<rparr> (c\<lparr>calls := log\<rparr>))
                   (visited @ [p]) q r \<Longrightarrow>
                 P c visited (Some p) r"
    and break: "\<And>c visited p q log. p \<noteq> [] \<Longrightarrow> p \<notin> set visited \<Longrightarrow> p \<notin> rootPageIds c \<Longrightarrow>
                 getParentPageId (httpClient c) p (calls c) = Some (Inr q, log) \<Longrightarrow> \<not> truthy q \<Longrightarrow>
                 P c visited (Some p)
                   (Inr False, cacheVisitedDenied (visited @ [p])
                      (cacheSet p \<lparr>parentId = q, isAllowed = False\<rparr> (c\<lparr>calls := log\<rparr>)))"
  shows "P c visited cur r"
  using run
proof (rule checkPageHierarchyLoop.raw_induct [rotated 1, where P = P])
  fix f :: "controller \<Rightarrow> string list \<Rightarrow> string option \<Rightarrow> ((error + bool) \<times> controller) option"
    and c :: controller and visited cur r
  assume IH: "\<And>(c :: controller) visited cur r. f c visited cur = Some r \<Longrightarrow> P c visited cur r"
  assume body: "(case cur of
        None \<Rightarrow> Some (Inr False, cacheVisitedDenied visited c)
      | Some cur \<Rightarrow>
          if cur = [] \<or> cur \<in> set visited then Some (Inr False, cacheVisitedDenied visited c)
          else if cur \<in> rootPageIds c
            then Some (Inr True, cacheVisitedAllowed (visited @ [cur]) c)
          else
            (case getParentPageId (httpClient c) cur (calls c) of
               None \<Rightarrow> None
             | Some (Inl e, log) \<Rightarrow>
                 Some (Inr False,
                   cacheSet cur \<lparr>parentId = None, isAllowed = False\<rparr> (c\<lparr>calls := log\<rparr>))
             | Some (Inr parentId', log) \<Rightarrow>
                 if truthy parentId'
                 then f
                        (cacheSet cur \<lparr>parentId = parentId', isAllowed = False\<rparr> (c\<lparr>calls := log\<rparr>))
                        (visited @ [cur]) parentId'
                 else Some (Inr False,
                        cacheVisitedDenied (visited @ [cur])
                          (cacheSet cur \<lparr>parentId = parentId', isAllowed = False\<rparr>
                             (c\<lparr>calls := log\<rparr>))))) = Some r"
  show "P c visited cur r"
  proof (cases cur)
    case None
    with body have "r = (Inr False, cacheVisitedDenied visited c)" by simp
    with None exit[of cur visited c] show ?thesis by (simp add: truthy_def)
  next
    case (Some p)
    show ?thesis
    proof (cases "p = [] \<or> p \<in> set visited")
      case True
      with body Some have "r = (Inr False, cacheVisitedDenied visited c)" by auto
      with Some True exit[of cur visited c] show ?thesis by (auto simp: truthy_def)
    next
      case stop: False
      show ?thesis
      proof (cases "p \<in> rootPageIds c")
        case True
        with body Some stop have "r = (Inr True, cacheVisitedAllowed (visited @ [p]) c)" by auto
        with Some stop True root[of p visited c] show ?thesis by simp
      next
        case False
        with body Some stop obtain res log where
          g: "getParentPageId (httpClient c) p (calls c) = Some (res, log)"
          by (cases "getParentPageId (httpClient c) p (calls c)") auto
        show ?thesis
        proof (cases res)
          case (Inl e)
          with body Some stop False g have
            "r = (Inr False, cacheSet p \<lparr>parentId = None, isAllowed = False\<rparr> (c\<lparr>calls := log\<rparr>))"
            by auto
          with Some stop False g Inl error[of p visited c e log] show ?thesis by simp
        next
          case (Inr q)
          show ?thesis
          proof (cases "truthy q")
            case True
            with body Some stop False g Inr have
              "f (cacheSet p \<lparr>parentId = q, isAllowed = False\<rparr> (c\<lparr>calls := log\<rparr>)) (visited @ [p]) q
                 = Some r" by simp
            from IH[OF this] Some stop False g Inr True step[of p visited c q log r]
            show ?thesis by simp
          next
            case nt: False
            with body Some stop False g Inr have
              "r = (Inr False, cacheVisitedDenied (visited @ [p])
                      (cacheSet p \<lparr>parentId = q, isAllowed = False\<rparr> (c\<lparr>calls := log\<rparr>)))"
              by auto
            with Some stop False g Inr nt break[of p visited c q log] show ?thesis by simp
          qed
        qed
      qed
    qed
  qed
qed

lemma checkPageHierarchyLoop_never_throws:
  assumes "checkPageHierarchyLoop c visited cur = Some r"
  shows "\<exists>b. fst r = Inr b"
  using assms by (induction rule: checkPageHierarchyLoop_cases_induct) auto

lemma checkPageHierarchy_never_throws:
  "checkPageHierarchy c p = Some (r, c') \<Longrightarrow> \<exists>b. r = Inr b"
  using checkPageHierarchyLoop_never_throws[of c "[]" "Some p" "(r, c')"]
  by (simp add: checkPageHierarchy_def)

lemma checkPageHierarchyLoop_frame:
  assumes "checkPageHierarchyLoop c visited cur = Some r"
  shows "rootPageIds (snd r) = rootPageIds c \<and> httpClient (snd r) = httpClient c"
  using assms by (induction rule: checkPageHierarchyLoop_cases_induct) simp_all

lemma checkPageHierarchy_frame:
  "checkPageHierarchy c p = Some (b, c') \<Longrightarrow>
     rootPageIds c' = rootPageIds c \<and> httpClient c' = httpClient c"
  using checkPageHierarchyLoop_frame[of c "[]" "Some p" "(b, c')"]
  by (simp add: checkPageHierarchy_def)

lemma checkPageHierarchyLoop_None:
  "checkPageHierarchyLoop c visited None = Some (Inr False, cacheVisitedDenied visited c)"
  by (subst checkPageHierarchyLoop.simps) simp

lemma checkPageHierarchyLoop_exit:
  "p = [] \<or> p \<in> set visited \<Longrightarrow>
   checkPageHierarchyLoop c visited (Some p) = Some (Inr False, cacheVisitedDenied visited c)"
  by (subst checkPageHierarchyLoop.simps) simp

lemma checkPageHierarchyLoop_root:
  "p \<noteq> [] \<Longrightarrow> p \<notin> set visited \<Longrightarrow> p \<in> rootPageIds c \<Longrightarrow>
   checkPageHierarchyLoop c visited (Some p)
     = Some (Inr True, cacheVisitedAllowed (visited @ [p]) c)"
  by (subst checkPageHierarchyLoop.simps) simp

lemma checkPageHierarchyLoop_diverge:
  "p \<noteq> [] \<Longrightarrow> p \<notin> set visited \<Longrightarrow> p \<notin> rootPageIds c \<Longrightarrow>
   getParentPageId (httpClient c) p (calls c) = None \<Longrightarrow>
   checkPageHierarchyLoop c visited (Some p) = None"
  by (subst checkPageHierarchyLoop.simps) simp

lemma checkPageHierarchyLoop_error:
  "p \<noteq> [] \<Longrightarrow> p \<notin> set visited \<Longrightarrow> p \<notin> rootPageIds c \<Longrightarrow>
   getParentPageId (httpClient c) p (calls c) = Some (Inl e, log) \<Longrightarrow>
   checkPageHierarchyLoop c visited (Some p)
     = Some (Inr False,
         cacheSet p \<lparr>parentId = None, isAllowed = False\<rparr> (c\<lparr>calls := log\<rparr>))"
  by (subst checkPageHierarchyLoop.simps) simp

lemma checkPageHierarchyLoop_step:
  "p \<noteq> [] \<Longrightarrow> p \<notin> set visited \<Longrightarrow> p \<notin> rootPageIds c \<Longrightarrow>
   getParentPageId (httpClient c) p (calls c) = Some (Inr q, log) \<Longrightarrow> truthy q \<Longrightarrow>
   checkPageHierarchyLoop c visited (Some p)
     = checkPageHierarchyLoop
         (cacheSet p \<lparr>parentId = q, isAllowed = False\<rparr> (c\<lparr>calls := log\<rparr>)) (visited @ [p]) q"
  by (subst checkPageHierarchyLoop.simps) simp

lemma checkPageHierarchyLoop_break:
  "p \<noteq> [] \<Longrightarrow> p \<notin> set visited \<Longrightarrow> p \<notin> rootPageIds c \<Longrightarrow>
   getParentPageId (httpClient c) p (calls c) = Some (Inr q, log) \<Longrightarrow> \<not> truthy q \<Longrightarrow>
   checkPageHierarchyLoop c visited (Some p)
     = Some (Inr False, cacheVisitedDenied (visited @ [p])
          (cacheSet p \<lparr>parentId = q, isAllowed = False\<rparr> (c\<lparr>calls := log\<rparr>)))"
  by (subst checkPageHierarchyLoop.simps) simp

lemma getParentPageId_page:
  "hc (retrieve_a_page p) = Inr (Some (page_id q)) \<Longrightarrow>
   getParentPageId hc p log = Some (Inr (Some q), log @ [retrieve_a_page p])"
  by (simp add: getParentPageId_def executeOperation_def)

lemma getParentPageId_block:
  "hc (retrieve_a_page p) = Inr (Some (block_id b)) \<Longrightarrow>
   getParentPageId hc p log = resolveContainer hc (block b) (log @ [retrieve_a_page p])"
  by (simp add: getParentPageId_def executeOperation_def resolveBlockToPage_def)

lemma getParentPageId_database:
  "hc (retrieve_a_page p) = Inr (Some (database_id d)) \<Longrightarrow>
   getParentPageId hc p log = resolveContainer hc (database d) (log @ [retrieve_a_page p])"
  by (simp add: getParentPageId_def executeOperation_def getDatabaseParent_def)

lemma getParentPageId_none:
  "hc (retrieve_a_page p) = Inr None \<or> hc (retrieve_a_page p) = Inr (Some other_type) \<Longrightarrow>
   getParentPageId hc p log = Some (Inr None, log @ [retrieve_a_page p])"
  by (auto simp: getParentPageId_def executeOperation_def)

lemma getParentPageId_throws:
  "hc (retrieve_a_page p) = Inl e \<Longrightarrow>
   getParentPageId hc p log = Some (Inl e, log @ [retrieve_a_page p])"
  by (simp add: getParentPageId_def executeOperation_def)

lemma getParentPageId_throws_only_at_page:
  assumes "getParentPageId hc p log = Some (Inl e, log')"
  shows "hc (retrieve_a_page p) = Inl e \<and> log' = log @ [retrieve_a_page p]"
proof (cases "hc (retrieve_a_page p)")
  case (Inl e')
  from assms getParentPageId_throws[of hc p e' log, OF Inl] Inl show ?thesis by simp
next
  case (Inr pa)
  show ?thesis
  proof (cases pa)
    case None
    with Inr assms getParentPageId_none[of hc p log] show ?thesis by simp
  next
    case (Some par)
    show ?thesis
    proof (cases par)
      case (page_id q)
      with Inr Some assms getParentPageId_page[of hc p q log] show ?thesis by simp
    next
      case (database_id d)
      with Inr Some assms getParentPageId_database[of hc p d log]
        resolveContainer_never_throws[of hc "database d" "log @ [retrieve_a_page p]" "Inl e" log']
      show ?thesis by simp
    next
      case (block_id b)
      with Inr Some assms getParentPageId_block[of hc p b log]
        resolveContainer_never_throws[of hc "block b" "log @ [retrieve_a_page p]" "Inl e" log']
      show ?thesis by simp
    next
      case other_type
      with Inr Some assms getParentPageId_none[of hc p log] show ?thesis by simp
    qed
  qed
qed

section \<open>Unfolding the probes\<close>

lemma findRootPageForResource_never_throws:
  assumes "findRootPageForResource hc n log = Some (r, log')"
  shows "\<exists>v. r = Inr v"
proof -
  from assms obtain outcome where "catchReturnNull outcome = (r, log')"
    unfolding findRootPageForResource_def
    by (auto simp only: bind_eq_Some_conv option.inject)
  with catchReturnNull_returns[of outcome] show ?thesis by auto
qed

lemma findRootPageForResource_page:
  "hc (retrieve_a_page n) = Inr r \<Longrightarrow>
   findRootPageForResource hc n log = Some (Inr (Some n), log @ [retrieve_a_page n])"
  by (simp add: findRootPageForResource_def executeOperation_def)

lemma findRootPageForResource_diverges:
  "hc (retrieve_a_page n) = Inl e \<Longrightarrow>
   resolveContainer hc (database n) (log @ [retrieve_a_page n]) = None \<Longrightarrow>
   findRootPageForResource hc n log = None"
  by (simp add: findRootPageForResource_def executeOperation_def getDatabaseParent_def)

lemma findRootPageForResource_database:
  "hc (retrieve_a_page n) = Inl e \<Longrightarrow>
   resolveContainer hc (database n) (log @ [retrieve_a_page n]) = Some (Inr p, log') \<Longrightarrow>
   truthy p \<Longrightarrow>
   findRootPageForResource hc n log = Some (Inr p, log')"
  by (simp add: findRootPageForResource_def executeOperation_def getDatabaseParent_def)

lemma findRootPageForResource_block_diverges:
  "hc (retrieve_a_page n) = Inl e \<Longrightarrow>
   resolveContainer hc (database n) (log @ [retrieve_a_page n]) = Some (Inr p, log') \<Longrightarrow>
   \<not> truthy p \<Longrightarrow> resolveContainer hc (block n) log' = None \<Longrightarrow>
   findRootPageForResource hc n log = None"
  by (simp add: findRootPageForResource_def executeOperation_def getDatabaseParent_def
      resolveBlockToPage_def)

lemma findRootPageForResource_block:
  "hc (retrieve_a_page n) = Inl e \<Longrightarrow>
   resolveContainer hc (database n) (log @ [retrieve_a_page n]) = Some (Inr p, log') \<Longrightarrow>
   \<not> truthy p \<Longrightarrow> resolveContainer hc (block n) log' = Some (Inr q, log'') \<Longrightarrow>
   findRootPageForResource hc n log = Some (Inr (if truthy q then q else None), log'')"
  by (simp add: findRootPageForResource_def executeOperation_def getDatabaseParent_def
      resolveBlockToPage_def)

lemma findRootPageForResource_cases [consumes 1, case_names page database block]:
  assumes run: "findRootPageForResource hc n log = Some (r, log')"
  obtains r0 where "hc (retrieve_a_page n) = Inr r0" "r = Inr (Some n)"
      "log' = log @ [retrieve_a_page n]"
  | e p where "hc (retrieve_a_page n) = Inl e"
      "resolveContainer hc (database n) (log @ [retrieve_a_page n]) = Some (Inr p, log')"
      "truthy p" "r = Inr p"
  | e p l1 q where "hc (retrieve_a_page n) = Inl e"
      "resolveContainer hc (database n) (log @ [retrieve_a_page n]) = Some (Inr p, l1)"
      "\<not> truthy p" "resolveContainer hc (block n) l1 = Some (Inr q, log')"
      "r = Inr (if truthy q then q else None)"
proof (cases "hc (retrieve_a_page n)")
  case (Inr r0)
  from run findRootPageForResource_page[of hc n r0 log, OF Inr]
  have "r = Inr (Some n)" "log' = log @ [retrieve_a_page n]" by simp_all
  from that(1)[OF Inr this] show ?thesis .
next
  case (Inl e)
  show ?thesis
  proof (cases "resolveContainer hc (database n) (log @ [retrieve_a_page n])")
    case None
    from run findRootPageForResource_diverges[OF Inl None] show ?thesis by simp
  next
    case (Some y)
    obtain r1 l1 where y: "y = (r1, l1)" by (cases y)
    from resolveContainer_never_throws[OF Some[unfolded y]] obtain p where r1: "r1 = Inr p" ..
    note d = Some[unfolded y r1]
    show ?thesis
    proof (cases "truthy p")
      case True
      from run findRootPageForResource_database[OF Inl d True]
      have "r = Inr p" "l1 = log'" by simp_all
      with that(2)[OF Inl _ True] d show ?thesis by simp
    next
      case nt: False
      show ?thesis
      proof (cases "resolveContainer hc (block n) l1")
        case None
        from run findRootPageForResource_block_diverges[OF Inl d nt None] show ?thesis by simp
      next
        case (Some z)
        obtain r2 l2 where z: "z = (r2, l2)" by (cases z)
        from resolveContainer_never_throws[OF Some[unfolded z]] obtain q where
          r2: "r2 = Inr q" ..
        note b = Some[unfolded z r2]
        from run findRootPageForResource_block[OF Inl d nt b]
        have "r = Inr (if truthy q then q else None)" "l2 = log'" by simp_all
        with that(3)[OF Inl d nt] b show ?thesis by simp
      qed
    qed
  qed
qed

section \<open>Unfolding the public entry\<close>

lemma isPageAllowed_disabled:
  "rootPageIds c = {} \<Longrightarrow> isPageAllowed c x = Some (Inr True, c)"
  by (simp add: isPageAllowed_def isEnabled_def)

lemma isPageAllowed_invalid:
  "rootPageIds c \<noteq> {} \<Longrightarrow> normalizePageId x = Inl e \<Longrightarrow> isPageAllowed c x = Some (Inl e, c)"
  by (simp add: isPageAllowed_def isEnabled_def)

lemma isPageAllowed_root:
  "normalizePageId x = Inr n \<Longrightarrow> n \<in> rootPageIds c \<Longrightarrow> isPageAllowed c x = Some (Inr True, c)"
  by (simp add: isPageAllowed_def isEnabled_def)

lemma isPageAllowed_cached:
  "rootPageIds c \<noteq> {} \<Longrightarrow> normalizePageId x = Inr n \<Longrightarrow> n \<notin> rootPageIds c \<Longrightarrow>
   pageCache c n = Some entry \<Longrightarrow> isPageAllowed c x = Some (Inr (isAllowed entry), c)"
  by (simp add: isPageAllowed_def isEnabled_def)

lemma isPageAllowed_diverges_probe:
  "rootPageIds c \<noteq> {} \<Longrightarrow> normalizePageId x = Inr n \<Longrightarrow> n \<notin> rootPageIds c \<Longrightarrow>
   pageCache c n = None \<Longrightarrow> findRootPageForResource (httpClient c) n (calls c) = None \<Longrightarrow>
   isPageAllowed c x = None"
  by (simp add: isPageAllowed_def isEnabled_def)

lemma isPageAllowed_unknown:
  "rootPageIds c \<noteq> {} \<Longrightarrow> normalizePageId x = Inr n \<Longrightarrow> n \<notin> rootPageIds c \<Longrightarrow>
   pageCache c n = None \<Longrightarrow>
   findRootPageForResource (httpClient c) n (calls c) = Some (Inr res, log) \<Longrightarrow>
   \<not> truthy res \<Longrightarrow>
   isPageAllowed c x
     = Some (Inr False, cacheSet n \<lparr>parentId = None, isAllowed = False\<rparr> (c\<lparr>calls := log\<rparr>))"
  by (cases res) (simp_all add: isPageAllowed_def isEnabled_def truthy_def)

lemma isPageAllowed_walk_diverges:
  "rootPageIds c \<noteq> {} \<Longrightarrow> normalizePageId x = Inr n \<Longrightarrow> n \<notin> rootPageIds c \<Longrightarrow>
   pageCache c n = None \<Longrightarrow>
   findRootPageForResource (httpClient c) n (calls c) = Some (Inr (Some p), log) \<Longrightarrow>
   p \<noteq> [] \<Longrightarrow> checkPageHierarchy (c\<lparr>calls := log\<rparr>) p = None \<Longrightarrow>
   isPageAllowed c x = None"
  by (simp add: isPageAllowed_def isEnabled_def)

lemma isPageAllowed_walk:
  "rootPageIds c \<noteq> {} \<Longrightarrow> normalizePageId x = Inr n \<Longrightarrow> n \<notin> rootPageIds c \<Longrightarrow>
   pageCache c n = None \<Longrightarrow>
   findRootPageForResource (httpClient c) n (calls c) = Some (Inr (Some p), log) \<Longrightarrow>
   p \<noteq> [] \<Longrightarrow> checkPageHierarchy (c\<lparr>calls := log\<rparr>) p = Some (Inr allowed, c') \<Longrightarrow>
   isPageAllowed c x
     = Some (Inr allowed, cacheSet n \<lparr>parentId = Some p, isAllowed = allowed\<rparr> c')"
  by (simp add: isPageAllowed_def isEnabled_def)

lemma isPageAllowed_cases [consumes 1, case_names disabled invalid root cached unknown walk]:
  assumes run: "isPageAllowed c x = Some (r, c')"
  obtains "rootPageIds c = {}" "r = Inr True" "c' = c"
  | e where "rootPageIds c \<noteq> {}" "normalizePageId x = Inl e" "r = Inl e" "c' = c"
  | n where "rootPageIds c \<noteq> {}" "normalizePageId x = Inr n" "n \<in> rootPageIds c"
      "r = Inr True" "c' = c"
  | n entry where "rootPageIds c \<noteq> {}" "normalizePageId x = Inr n" "n \<notin> rootPageIds c"
      "pageCache c n = Some entry" "r = Inr (isAllowed entry)" "c' = c"
  | n res log where "rootPageIds c \<noteq> {}" "normalizePageId x = Inr n" "n \<notin> rootPageIds c"
      "pageCache c n = None"
      "findRootPageForResource (httpClient c) n (calls c) = Some (Inr res, log)"
      "\<not> truthy res" "r = Inr False"
      "c' = cacheSet n \<lparr>parentId = None, isAllowed = False\<rparr> (c\<lparr>calls := log\<rparr>)"
  | n p log b c1 where "rootPageIds c \<noteq> {}" "normalizePageId x = Inr n" "n \<notin> rootPageIds c"
      "pageCache c n = None"
      "findRootPageForResource (httpClient c) n (calls c) = Some (Inr (Some p), log)" "p \<noteq> []"
      "checkPageHierarchy (c\<lparr>calls := log\<rparr>) p = Some (Inr b, c1)"
      "r = Inr b"
      "c' = cacheSet n \<lparr>parentId = Some p, isAllowed = b\<rparr> c1"
proof (cases "rootPageIds c = {}")
  case True
  from run isPageAllowed_disabled[OF True, of x] have "r = Inr True" "c' = c" by simp_all
  from that(1)[OF True this] show ?thesis .
next
  case en: False
  show ?thesis
  proof (cases "normalizePageId x")
    case (Inl e)
    from run isPageAllowed_invalid[OF en Inl] have "r = Inl e" "c' = c" by simp_all
    from that(2)[OF en Inl this] show ?thesis .
  next
    case (Inr n)
    show ?thesis
    proof (cases "n \<in> rootPageIds c")
      case True
      from run isPageAllowed_root[OF Inr True] have "r = Inr True" "c' = c" by simp_all
      from that(3)[OF en Inr True this] show ?thesis .
    next
      case nr: False
      show ?thesis
      proof (cases "pageCache c n")
        case (Some entry)
        from run isPageAllowed_cached[OF en Inr nr Some]
        have "r = Inr (isAllowed entry)" "c' = c" by simp_all
        from that(4)[OF en Inr nr Some this] show ?thesis .
      next
        case None
        show ?thesis
        proof (cases "findRootPageForResource (httpClient c) n (calls c)")
          case none: None
          from run isPageAllowed_diverges_probe[OF en Inr nr None none] show ?thesis by simp
        next
          case (Some a)
          obtain res0 log where a: "a = (res0, log)" by (cases a)
          from findRootPageForResource_never_throws[OF Some[unfolded a]] obtain res where
            "res0 = Inr res" ..
          with Some a have
            f: "findRootPageForResource (httpClient c) n (calls c) = Some (Inr res, log)"
            by simp
          show ?thesis
          proof (cases "truthy res")
            case False
            from run isPageAllowed_unknown[OF en Inr nr None f False]
            have "r = Inr False"
              "c' = cacheSet n \<lparr>parentId = None, isAllowed = False\<rparr> (c\<lparr>calls := log\<rparr>)"
              by simp_all
            from that(5)[OF en Inr nr None f False this] show ?thesis .
          next
            case True
            then obtain p where p: "res = Some p" "p \<noteq> []"
              by (cases res) (simp_all add: truthy_def)
            note f' = f[unfolded p(1)]
            show ?thesis
            proof (cases "checkPageHierarchy (c\<lparr>calls := log\<rparr>) p")
              case none: None
              from run isPageAllowed_walk_diverges[OF en Inr nr None f' p(2) none]
              show ?thesis by simp
            next
              case (Some bc)
              obtain b0 c1 where bc: "bc = (b0, c1)" by (cases bc)
              from checkPageHierarchy_never_throws[OF Some[unfolded bc]] obtain b where
                "b0 = Inr b" ..
              with Some bc have
                w: "checkPageHierarchy (c\<lparr>calls := log\<rparr>) p = Some (Inr b, c1)"
                by simp
              from run isPageAllowed_walk[OF en Inr nr None f' p(2) w] have "r = Inr b"
                "c' = cacheSet n \<lparr>parentId = Some p, isAllowed = b\<rparr> c1" by simp_all
              from that(6)[OF en Inr nr None f' p(2) w this] show ?thesis .
            qed
          qed
        qed
      qed
    qed
  qed
qed

lemma isPageAllowed_frame:
  assumes "isPageAllowed c x = Some (r, c')"
  shows "rootPageIds c' = rootPageIds c \<and> httpClient c' = httpClient c"
  using assms
proof (cases rule: isPageAllowed_cases)
  case (walk n p log b c1)
  from checkPageHierarchy_frame[OF walk(7)] walk(9) show ?thesis by simp
qed simp_all

section \<open>Examples\<close>

lemma normalizePageId_nonempty: "normalizePageId x = Inr n \<Longrightarrow> n \<noteq> []"
  using normalizePageId_shape(1)[of x n] by auto

lemma cacheVisitedDenied_cached:
  "\<forall>k \<in> set vs. pageCache c k \<noteq> None \<Longrightarrow> cacheVisitedDenied vs c = c"
  by (induction vs arbitrary: c) (auto simp: cacheVisitedDenied_def)

lemma freshController_fields [simp]:
  "rootPageIds (freshController roots hc) = roots"
  "httpClient (freshController roots hc) = hc"
  "pageCache (freshController roots hc) = Map.empty"
  "calls (freshController roots hc) = []"
  by (simp_all add: freshController_def)

lemma normalizePageId_examples:
  "normalizePageId idX = Inr idX" "normalizePageId idB1 = Inr idB1"
  "normalizePageId idP1 = Inr idP1"
  "normalizePageId ''11111111111111111111111111111111'' = Inr idP1"
  unfolding idX_def idB1_def idP1_def by code_simp+

lemma example_ids_distinct:
  "idX \<noteq> idB1" "idX \<noteq> idP1" "idB1 \<noteq> idP1" "idX \<noteq> []" "idB1 \<noteq> []" "idP1 \<noteq> []"
  by (simp_all add: idX_def idB1_def idP1_def)

lemma isPageAllowed_all_probes_throw:
  assumes "rootPageIds c \<noteq> {}" "normalizePageId x = Inr n" "n \<notin> rootPageIds c"
    "pageCache c n = None"
    "httpClient c (retrieve_a_page n) = Inl e1"
    "httpClient c (retrieve_a_database n) = Inl e2"
    "httpClient c (retrieve_a_block n) = Inl e3"
  shows "isPageAllowed c x
     = Some (Inr False, cacheSet n \<lparr>parentId = None, isAllowed = False\<rparr>
         (c\<lparr>calls := calls c @ [retrieve_a_page n, retrieve_a_database n, retrieve_a_block n]\<rparr>))"
proof -
  have d: "resolveContainer (httpClient c) (database n) (calls c @ [retrieve_a_page n])
      = Some (Inr None, (calls c @ [retrieve_a_page n]) @ [retrieve_a_database n])"
    using assms(6) by (simp add: resolveContainer_database)
  have b: "resolveContainer (httpClient c) (block n)
        ((calls c @ [retrieve_a_page n]) @ [retrieve_a_database n])
      = Some (Inr None, calls c @ [retrieve_a_page n, retrieve_a_database n, retrieve_a_block n])"
    using assms(7) by (simp add: resolveContainer_block)
  have "findRootPageForResource (httpClient c) n (calls c)
      = Some (Inr None, calls c @ [retrieve_a_page n, retrieve_a_database n, retrieve_a_block n])"
    using findRootPageForResource_block[OF assms(5) d _ b] by (simp add: truthy_def)
  from isPageAllowed_unknown[OF assms(1-4) this] show ?thesis by (simp add: truthy_def)
qed

lemma normalizePageId_more_examples:
  "normalizePageId idA = Inr idA" "normalizePageId idB = Inr idB"
  unfolding idA_def idB_def by code_simp+

lemma more_ids_distinct:
  "idA \<noteq> idB" "idA \<noteq> idP1" "idB \<noteq> idP1" "idB \<noteq> []" "idA \<noteq> idB1" "idB \<noteq> idB1"
  by (simp_all add: idA_def idB_def idP1_def idB1_def)

section \<open>The public entry\<close>

text \<open>
  C2: with an empty root set, for every input string, and with a normalised input that is a
  member of the root set, \<open>isPageAllowed\<close> returns \<open>true\<close> and leaves the controller as
  it was: no cache entry is written and the provider is not called.
\<close>

theorem isPageAllowed_disabled_or_root:
  assumes "rootPageIds c = {} \<or> (\<exists>n. normalizePageId x = Inr n \<and> n \<in> rootPageIds c)"
  shows "isPageAllowed c x = Some (Inr True, c)"
  using assms by (auto simp: isPageAllowed_def isEnabled_def)

text \<open>
  A malformed input with access control off, and a root given without hyphens, on a
  provider that would throw if it were called.
\<close>

theorem isPageAllowed_disabled_or_root_witness:
  "isPageAllowed (freshController {} failingClient) ''not an id''
     = Some (Inr True, freshController {} failingClient)
   \<and> isPageAllowed (freshController {idP1} failingClient) ''11111111111111111111111111111111''
     = Some (Inr True, freshController {idP1} failingClient)"
proof -
  have a: "rootPageIds (freshController {} failingClient) = {}
            \<or> (\<exists>n. normalizePageId ''not an id'' = Inr n
                    \<and> n \<in> rootPageIds (freshController {} failingClient))"
    by simp
  have b: "rootPageIds (freshController {idP1} failingClient) = {}
            \<or> (\<exists>n. normalizePageId ''11111111111111111111111111111111'' = Inr n
                    \<and> n \<in> rootPageIds (freshController {idP1} failingClient))"
    by (simp add: normalizePageId_examples)
  from isPageAllowed_disabled_or_root[OF a] isPageAllowed_disabled_or_root[OF b]
  show ?thesis by simp
qed

section \<open>Walks of the hierarchy\<close>

lemma cycle_walk:
  assumes en: "rootPageIds c \<noteq> {}" and n: "normalizePageId x = Inr a"
    and ra: "a \<notin> rootPageIds c" and rb: "b \<notin> rootPageIds c"
    and miss: "pageCache c a = None" and ab: "a \<noteq> b" and b: "b \<noteq> []"
    and pa: "httpClient c (retrieve_a_page a) = Inr (Some (page_id b))"
    and pb: "httpClient c (retrieve_a_page b) = Inr (Some (page_id a))"
  shows "\<exists>c'. isPageAllowed c x = Some (Inr False, c')
           \<and> calls c' = calls c @ [retrieve_a_page a, retrieve_a_page a, retrieve_a_page b]
           \<and> pageCache c' a = Some \<lparr>parentId = Some a, isAllowed = False\<rparr>
           \<and> pageCache c' b = Some \<lparr>parentId = Some a, isAllowed = False\<rparr>"
proof -
  from n have a: "a \<noteq> []" by (rule normalizePageId_nonempty)
  define c0 where "c0 = c\<lparr>calls := calls c @ [retrieve_a_page a]\<rparr>"
  define c1 where "c1 = cacheSet a \<lparr>parentId = Some b, isAllowed = False\<rparr>
      (c0\<lparr>calls := calls c0 @ [retrieve_a_page a]\<rparr>)"
  define c2 where "c2 = cacheSet b \<lparr>parentId = Some a, isAllowed = False\<rparr>
      (c1\<lparr>calls := calls c1 @ [retrieve_a_page b]\<rparr>)"
  have f: "findRootPageForResource (httpClient c) a (calls c)
             = Some (Inr (Some a), calls c @ [retrieve_a_page a])"
    by (rule findRootPageForResource_page[of "httpClient c" a, OF pa])
  have g0: "getParentPageId (httpClient c0) a (calls c0)
             = Some (Inr (Some b), calls c0 @ [retrieve_a_page a])"
    using pa by (simp add: c0_def getParentPageId_page)
  have s0: "checkPageHierarchyLoop c0 [] (Some a) = checkPageHierarchyLoop c1 ([] @ [a]) (Some b)"
    unfolding c1_def
    by (rule checkPageHierarchyLoop_step[OF a _ _ g0]) (use ra b in \<open>simp_all add: c0_def truthy_def\<close>)
  have g1: "getParentPageId (httpClient c1) b (calls c1)
             = Some (Inr (Some a), calls c1 @ [retrieve_a_page b])"
    using pb by (simp add: c1_def c0_def getParentPageId_page)
  have s1: "checkPageHierarchyLoop c1 [a] (Some b) = checkPageHierarchyLoop c2 ([a] @ [b]) (Some a)"
    unfolding c2_def
    by (rule checkPageHierarchyLoop_step[OF b _ _ g1])
       (use rb a ab in \<open>simp_all add: c1_def c0_def truthy_def\<close>)
  have s2: "checkPageHierarchyLoop c2 [a, b] (Some a) = Some (Inr False, cacheVisitedDenied [a, b] c2)"
    by (rule checkPageHierarchyLoop_exit) simp
  have d: "cacheVisitedDenied [a, b] c2 = c2"
    by (rule cacheVisitedDenied_cached) (simp add: c2_def c1_def)
  have w: "checkPageHierarchy (c\<lparr>calls := calls c @ [retrieve_a_page a]\<rparr>) a = Some (Inr False, c2)"
    using s0 s1 s2 d by (simp add: checkPageHierarchy_def c0_def)
  have "isPageAllowed c x
      = Some (Inr False, cacheSet a \<lparr>parentId = Some a, isAllowed = False\<rparr> c2)"
    using isPageAllowed_walk[OF en n ra miss f a w] by simp
  moreover have "calls c2 = calls c @ [retrieve_a_page a, retrieve_a_page a, retrieve_a_page b]"
    by (simp add: c2_def c1_def c0_def)
  moreover have "pageCache c2 b = Some \<lparr>parentId = Some a, isAllowed = False\<rparr>"
    by (simp add: c2_def)
  ultimately show ?thesis using ab by simp
qed

lemma cycle_always_returns:
  assumes n: "normalizePageId x = Inr a"
    and pa: "httpClient c (retrieve_a_page a) = Inr (Some (page_id b))"
    and pb: "httpClient c (retrieve_a_page b) = Inr (Some (page_id a))"
  shows "\<exists>r c'. isPageAllowed c x = Some (Inr r, c') \<and> length (calls c') \<le> length (calls c) + 3
           \<and> (rootPageIds c \<noteq> {} \<and> a \<notin> rootPageIds c \<and> b \<notin> rootPageIds c
                 \<and> pageCache c a = None \<longrightarrow> \<not> r)"
proof -
  from n have a: "a \<noteq> []" by (rule normalizePageId_nonempty)
  consider (disabled) "rootPageIds c = {}"
    | (root) "rootPageIds c \<noteq> {}" "a \<in> rootPageIds c"
    | (cached) e where "rootPageIds c \<noteq> {}" "a \<notin> rootPageIds c" "pageCache c a = Some e"
    | (miss) "rootPageIds c \<noteq> {}" "a \<notin> rootPageIds c" "pageCache c a = None"
    by (cases "pageCache c a") auto
  then show ?thesis
  proof cases
    case disabled
    then show ?thesis by (auto simp: isPageAllowed_disabled)
  next
    case root
    with n show ?thesis by (auto simp: isPageAllowed_root)
  next
    case (cached e)
    with n show ?thesis by (auto simp: isPageAllowed_cached)
  next
    case miss
    define c0 where "c0 = c\<lparr>calls := calls c @ [retrieve_a_page a]\<rparr>"
    have f: "findRootPageForResource (httpClient c) a (calls c)
               = Some (Inr (Some a), calls c @ [retrieve_a_page a])"
      by (rule findRootPageForResource_page[of "httpClient c" a, OF pa])
    have g0: "getParentPageId (httpClient c0) a (calls c0)
               = Some (Inr (Some b), calls c0 @ [retrieve_a_page a])"
      using pa by (simp add: c0_def getParentPageId_page)
    have "\<exists>r c1. checkPageHierarchy c0 a = Some (Inr r, c1)
        \<and> length (calls c1) \<le> length (calls c0) + 2 \<and> (b \<notin> rootPageIds c \<longrightarrow> \<not> r)"
    proof (cases "b = []")
      case True
      from checkPageHierarchyLoop_break[of a "[]" c0, OF a _ _ g0] miss(2) True
      show ?thesis by (auto simp: checkPageHierarchy_def truthy_def c0_def)
    next
      case b: False
      define c1 where "c1 = cacheSet a \<lparr>parentId = Some b, isAllowed = False\<rparr>
          (c0\<lparr>calls := calls c0 @ [retrieve_a_page a]\<rparr>)"
      have s0: "checkPageHierarchyLoop c0 [] (Some a) = checkPageHierarchyLoop c1 [a] (Some b)"
        using checkPageHierarchyLoop_step[of a "[]" c0, OF a _ _ g0] miss(2) b
        by (simp add: c1_def truthy_def c0_def)
      have l1: "length (calls c1) = length (calls c0) + 1" by (simp add: c1_def)
      show ?thesis
      proof (cases "b = a")
        case True
        from checkPageHierarchyLoop_exit[of b "[a]" c1] True s0 l1
        show ?thesis by (auto simp: checkPageHierarchy_def)
      next
        case ab: False
        show ?thesis
        proof (cases "b \<in> rootPageIds c")
          case True
          from checkPageHierarchyLoop_root[of b "[a]" c1] b ab True s0 l1
          show ?thesis by (auto simp: checkPageHierarchy_def c1_def c0_def)
        next
          case False
          define c2 where "c2 = cacheSet b \<lparr>parentId = Some a, isAllowed = False\<rparr>
              (c1\<lparr>calls := calls c1 @ [retrieve_a_page b]\<rparr>)"
          have g1: "getParentPageId (httpClient c1) b (calls c1)
                     = Some (Inr (Some a), calls c1 @ [retrieve_a_page b])"
            using pb by (simp add: c1_def c0_def getParentPageId_page)
          have s1: "checkPageHierarchyLoop c1 [a] (Some b)
              = checkPageHierarchyLoop c2 ([a] @ [b]) (Some a)"
            unfolding c2_def
            by (rule checkPageHierarchyLoop_step[OF b _ _ g1])
               (use False a ab in \<open>simp_all add: c1_def c0_def truthy_def\<close>)
          have s2: "checkPageHierarchyLoop c2 [a, b] (Some a)
              = Some (Inr False, cacheVisitedDenied [a, b] c2)"
            by (rule checkPageHierarchyLoop_exit) simp
          have "length (calls (cacheVisitedDenied [a, b] c2)) = length (calls c0) + 2"
            by (simp add: c2_def c1_def)
          with s0 s1 s2 show ?thesis by (auto simp: checkPageHierarchy_def)
        qed
      qed
    qed
    then obtain r c1 where w: "checkPageHierarchy c0 a = Some (Inr r, c1)"
      and l: "length (calls c1) \<le> length (calls c0) + 2" and nr: "b \<notin> rootPageIds c \<longrightarrow> \<not> r"
      by blast
    from isPageAllowed_walk[OF miss(1) n miss(2) miss(3) f a w[unfolded c0_def]] l nr miss
    show ?thesis by (auto simp: c0_def)
  qed
qed

text \<open>
  C7: on a provider whose page parents form the cycle \<open>a \<rightarrow> b \<rightarrow> a\<close>, \<open>isPageAllowed a\<close>
  returns in every state of the controller, after at most three calls of the provider, and
  the result is \<open>false\<close> when access control is on, neither page is a root and \<open>a\<close> has no
  cache entry. In that case, for \<open>a \<noteq> b\<close>, the calls are the probe of \<open>a\<close> and the parents
  of \<open>a\<close> and of \<open>b\<close>: the walk stops when it meets \<open>a\<close> again in the visited set, and both
  pages are cached as not allowed.
\<close>

theorem isPageAllowed_page_cycle:
  assumes "normalizePageId x = Inr a"
    and "httpClient c (retrieve_a_page a) = Inr (Some (page_id b))"
    and "httpClient c (retrieve_a_page b) = Inr (Some (page_id a))"
  shows "(\<exists>r c'. isPageAllowed c x = Some (Inr r, c') \<and> length (calls c') \<le> length (calls c) + 3
            \<and> (rootPageIds c \<noteq> {} \<and> a \<notin> rootPageIds c \<and> b \<notin> rootPageIds c
                  \<and> pageCache c a = None \<longrightarrow> \<not> r))
       \<and> (rootPageIds c \<noteq> {} \<and> a \<notin> rootPageIds c \<and> b \<notin> rootPageIds c
            \<and> pageCache c a = None \<and> a \<noteq> b \<and> b \<noteq> [] \<longrightarrow>
            (\<exists>c'. isPageAllowed c x = Some (Inr False, c')
               \<and> calls c' = calls c @ [retrieve_a_page a, retrieve_a_page a, retrieve_a_page b]
               \<and> pageCache c' a = Some \<lparr>parentId = Some a, isAllowed = False\<rparr>
               \<and> pageCache c' b = Some \<lparr>parentId = Some a, isAllowed = False\<rparr>))"
  using cycle_always_returns[OF assms] cycle_walk[OF _ assms(1) _ _ _ _ _ assms(2,3)]
  by blast

text \<open>The cycle of \<open>idA\<close> and \<open>idB\<close> under the root \<open>idP1\<close>.\<close>

theorem isPageAllowed_page_cycle_witness:
  "normalizePageId idA = Inr idA
   \<and> cycleClient (retrieve_a_page idA) = Inr (Some (page_id idB))
   \<and> cycleClient (retrieve_a_page idB) = Inr (Some (page_id idA))
   \<and> (\<exists>c'. isPageAllowed (freshController {idP1} cycleClient) idA = Some (Inr False, c')
      \<and> calls c' = [retrieve_a_page idA, retrieve_a_page idA, retrieve_a_page idB]
      \<and> pageCache c' idA = Some \<lparr>parentId = Some idA, isAllowed = False\<rparr>
      \<and> pageCache c' idB = Some \<lparr>parentId = Some idA, isAllowed = False\<rparr>)"
proof -
  let ?c = "freshController {idP1} cycleClient"
  have pa: "httpClient ?c (retrieve_a_page idA) = Inr (Some (page_id idB))"
    and pb: "httpClient ?c (retrieve_a_page idB) = Inr (Some (page_id idA))"
    by (simp_all add: cycleClient_def more_ids_distinct more_ids_distinct[symmetric])
  have h: "rootPageIds ?c \<noteq> {} \<and> idA \<notin> rootPageIds ?c \<and> idB \<notin> rootPageIds ?c
      \<and> pageCache ?c idA = None \<and> idA \<noteq> idB \<and> idB \<noteq> []"
    by (simp add: more_ids_distinct)
  from isPageAllowed_page_cycle[OF normalizePageId_more_examples(1) pa pb] h
  have "\<exists>c'. isPageAllowed ?c idA = Some (Inr False, c')
      \<and> calls c' = calls ?c @ [retrieve_a_page idA, retrieve_a_page idA, retrieve_a_page idB]
      \<and> pageCache c' idA = Some \<lparr>parentId = Some idA, isAllowed = False\<rparr>
      \<and> pageCache c' idB = Some \<lparr>parentId = Some idA, isAllowed = False\<rparr>"
    by blast
  with normalizePageId_more_examples(1) pa pb show ?thesis by simp
qed

lemma cacheVisitedAllowed_two:
  "cacheVisitedAllowed [a, b] c
     = cacheSet b \<lparr>parentId = None, isAllowed = True\<rparr>
         (cacheSet a \<lparr>parentId = None, isAllowed = True\<rparr> c)"
  by (simp add: cacheVisitedAllowed_def)

lemma cacheVisitedAllowed_one:
  "cacheVisitedAllowed [a] c = cacheSet a \<lparr>parentId = None, isAllowed = True\<rparr> c"
  by (simp add: cacheVisitedAllowed_def)

lemma block_between_pages:
  assumes nx: "normalizePageId rx = Inr x" and nb: "normalizePageId rb = Inr b1"
    and rp: "p1 \<in> rootPageIds c" and rx: "x \<notin> rootPageIds c" and rb: "b1 \<notin> rootPageIds c"
    and mx: "pageCache c x = None" and mb: "pageCache c b1 = None" and p1: "p1 \<noteq> []"
    and px: "httpClient c (retrieve_a_page x) = Inr (Some (block_id b1))"
    and bb: "httpClient c (retrieve_a_block b1) = Inr (Some (page_id p1))"
    and pb: "httpClient c (retrieve_a_page b1) = Inl e1"
    and db: "httpClient c (retrieve_a_database b1) = Inl e2"
  shows "\<exists>c' c''. isPageAllowed c rx = Some (Inr True, c')
           \<and> calls c' = calls c @ [retrieve_a_page x, retrieve_a_page x, retrieve_a_block b1]
           \<and> pageCache c' = (pageCache c)
                (p1 \<mapsto> \<lparr>parentId = None, isAllowed = True\<rparr>,
                 x \<mapsto> \<lparr>parentId = Some x, isAllowed = True\<rparr>)
           \<and> pageCache c' b1 = None
           \<and> isPageAllowed c' rb = Some (Inr True, c'')
           \<and> calls c'' = calls c' @ [retrieve_a_page b1, retrieve_a_database b1, retrieve_a_block b1]"
proof -
  from nx have x: "x \<noteq> []" by (rule normalizePageId_nonempty)
  from rp rx rb have ne: "x \<noteq> p1" "b1 \<noteq> p1" and en: "rootPageIds c \<noteq> {}" by auto
  from px pb have xb: "x \<noteq> b1" by auto
  define c0 where "c0 = c\<lparr>calls := calls c @ [retrieve_a_page x]\<rparr>"
  define c1 where "c1 = cacheSet x \<lparr>parentId = Some p1, isAllowed = False\<rparr>
      (c0\<lparr>calls := calls c0 @ [retrieve_a_page x, retrieve_a_block b1]\<rparr>)"
  define c2 where "c2 = cacheVisitedAllowed [x, p1] c1"
  define c' where "c' = cacheSet x \<lparr>parentId = Some x, isAllowed = True\<rparr> c2"
  have f: "findRootPageForResource (httpClient c) x (calls c)
             = Some (Inr (Some x), calls c @ [retrieve_a_page x])"
    by (rule findRootPageForResource_page[of "httpClient c" x, OF px])
  have g0: "getParentPageId (httpClient c0) x (calls c0)
             = Some (Inr (Some p1), calls c0 @ [retrieve_a_page x, retrieve_a_block b1])"
    using px bb by (simp add: c0_def getParentPageId_block resolveContainer_block)
  have s0: "checkPageHierarchyLoop c0 [] (Some x) = checkPageHierarchyLoop c1 ([] @ [x]) (Some p1)"
    unfolding c1_def
    by (rule checkPageHierarchyLoop_step[OF x _ _ g0]) (use rx p1 in \<open>simp_all add: c0_def truthy_def\<close>)
  have s1: "checkPageHierarchyLoop c1 [x] (Some p1) = Some (Inr True, cacheVisitedAllowed ([x] @ [p1]) c1)"
    by (rule checkPageHierarchyLoop_root[OF p1]) (use ne rp in \<open>simp_all add: c1_def c0_def\<close>)
  have w: "checkPageHierarchy (c\<lparr>calls := calls c @ [retrieve_a_page x]\<rparr>) x = Some (Inr True, c2)"
    using s0 s1 by (simp add: checkPageHierarchy_def c0_def c2_def)
  have first: "isPageAllowed c rx = Some (Inr True, c')"
    using isPageAllowed_walk[OF en nx rx mx f x w] by (simp add: c'_def)
  have calls': "calls c' = calls c @ [retrieve_a_page x, retrieve_a_page x, retrieve_a_block b1]"
    by (simp add: c'_def c2_def c1_def c0_def)
  have cache': "pageCache c' = (pageCache c)
                (p1 \<mapsto> \<lparr>parentId = None, isAllowed = True\<rparr>,
                 x \<mapsto> \<lparr>parentId = Some x, isAllowed = True\<rparr>)"
    using ne by (auto simp: c'_def c2_def c1_def c0_def cacheVisitedAllowed_two fun_upd_twist)
  have mb': "pageCache c' b1 = None"
    using mb ne xb by (simp add: cache')
  have roots': "rootPageIds c' = rootPageIds c" and hc': "httpClient c' = httpClient c"
    by (simp_all add: c'_def c2_def c1_def c0_def)
  have d2: "resolveContainer (httpClient c') (database b1) (calls c' @ [retrieve_a_page b1])
      = Some (Inr None, (calls c' @ [retrieve_a_page b1]) @ [retrieve_a_database b1])"
    using db by (simp add: hc' resolveContainer_database)
  have b2: "resolveContainer (httpClient c') (block b1)
        ((calls c' @ [retrieve_a_page b1]) @ [retrieve_a_database b1])
      = Some (Inr (Some p1),
          calls c' @ [retrieve_a_page b1, retrieve_a_database b1, retrieve_a_block b1])"
    using bb by (simp add: hc' resolveContainer_block)
  have f2: "findRootPageForResource (httpClient c') b1 (calls c')
      = Some (Inr (Some p1),
          calls c' @ [retrieve_a_page b1, retrieve_a_database b1, retrieve_a_block b1])"
    using findRootPageForResource_block[OF pb[folded hc'] d2 _ b2] p1 by (simp add: truthy_def)
  define d0 where "d0 = c'\<lparr>calls := calls c' @ [retrieve_a_page b1, retrieve_a_database b1,
      retrieve_a_block b1]\<rparr>"
  have w2: "checkPageHierarchy d0 p1 = Some (Inr True, cacheVisitedAllowed [p1] d0)"
    unfolding checkPageHierarchy_def
    using checkPageHierarchyLoop_root[of p1 "[]" d0] p1 rp by (simp add: d0_def roots')
  have second: "isPageAllowed c' rb
      = Some (Inr True, cacheSet b1 \<lparr>parentId = Some p1, isAllowed = True\<rparr>
          (cacheVisitedAllowed [p1] d0))"
    using isPageAllowed_walk[of c' rb b1 p1, OF _ nb _ mb' f2 p1 w2[unfolded d0_def]] en rb
    by (simp add: roots' d0_def)
  have "calls (cacheSet b1 \<lparr>parentId = Some p1, isAllowed = True\<rparr> (cacheVisitedAllowed [p1] d0))
      = calls c' @ [retrieve_a_page b1, retrieve_a_database b1, retrieve_a_block b1]"
    by (simp add: d0_def)
  with first calls' cache' mb' second show ?thesis by blast
qed

lemma scenario_facts:
  "normalizePageId idX = Inr idX" "normalizePageId idB1 = Inr idB1"
  "idP1 \<in> rootPageIds (freshController {idP1} scenarioClient)"
  "idX \<notin> rootPageIds (freshController {idP1} scenarioClient)"
  "idB1 \<notin> rootPageIds (freshController {idP1} scenarioClient)"
  "pageCache (freshController {idP1} scenarioClient) idX = None"
  "pageCache (freshController {idP1} scenarioClient) idB1 = None"
  "idP1 \<noteq> []"
  "httpClient (freshController {idP1} scenarioClient) (retrieve_a_page idX)
     = Inr (Some (block_id idB1))"
  "httpClient (freshController {idP1} scenarioClient) (retrieve_a_block idB1)
     = Inr (Some (page_id idP1))"
  "httpClient (freshController {idP1} scenarioClient) (retrieve_a_page idB1)
     = Inl (HttpClientError ''object_not_found'')"
  "httpClient (freshController {idP1} scenarioClient) (retrieve_a_database idB1)
     = Inl (HttpClientError ''object_not_found'')"
  by (simp_all add: normalizePageId_examples example_ids_distinct
      example_ids_distinct[symmetric] scenarioClient_def)

text \<open>
  C6, as the code has it: with the page \<open>p1\<close> in the root set, a page \<open>x\<close> whose parent is
  the block \<open>b1\<close>, and \<open>b1\<close> with parent page \<open>p1\<close>, \<open>isPageAllowed x\<close> returns \<open>true\<close>
  and caches \<open>x\<close> and \<open>p1\<close>, the pages the walk visited, but not the block \<open>b1\<close>. A call
  \<open>isPageAllowed b1\<close> right after it finds no cache entry; it returns \<open>true\<close> after three
  more calls of the provider (\<open>b1\<close> probed as a page, as a database, and resolved as a
  block).
\<close>

theorem isPageAllowed_block_parent_uncached:
  assumes "normalizePageId rx = Inr x" and "normalizePageId rb = Inr b1"
    and "p1 \<in> rootPageIds c" and "x \<notin> rootPageIds c" and "b1 \<notin> rootPageIds c"
    and "pageCache c x = None" and "pageCache c b1 = None" and "p1 \<noteq> []"
    and "httpClient c (retrieve_a_page x) = Inr (Some (block_id b1))"
    and "httpClient c (retrieve_a_block b1) = Inr (Some (page_id p1))"
    and "httpClient c (retrieve_a_page b1) = Inl e1"
    and "httpClient c (retrieve_a_database b1) = Inl e2"
  shows "\<exists>c' c''. isPageAllowed c rx = Some (Inr True, c')
           \<and> calls c' = calls c @ [retrieve_a_page x, retrieve_a_page x, retrieve_a_block b1]
           \<and> pageCache c' = (pageCache c)
                (p1 \<mapsto> \<lparr>parentId = None, isAllowed = True\<rparr>,
                 x \<mapsto> \<lparr>parentId = Some x, isAllowed = True\<rparr>)
           \<and> pageCache c' b1 = None
           \<and> isPageAllowed c' rb = Some (Inr True, c'')
           \<and> calls c'' = calls c' @ [retrieve_a_page b1, retrieve_a_database b1, retrieve_a_block b1]"
  using assms by (rule block_between_pages)

text \<open>The scenario itself.\<close>

theorem isPageAllowed_block_parent_uncached_witness:
  "\<exists>c' c''. isPageAllowed (freshController {idP1} scenarioClient) idX = Some (Inr True, c')
      \<and> calls c' = [retrieve_a_page idX, retrieve_a_page idX, retrieve_a_block idB1]
      \<and> pageCache c' idB1 = None
      \<and> isPageAllowed c' idB1 = Some (Inr True, c'')
      \<and> calls c'' = calls c' @ [retrieve_a_page idB1, retrieve_a_database idB1,
           retrieve_a_block idB1]"
proof -
  from isPageAllowed_block_parent_uncached[OF scenario_facts]
  obtain c' c'' where
    "isPageAllowed (freshController {idP1} scenarioClient) idX = Some (Inr True, c')"
    "calls c' = calls (freshController {idP1} scenarioClient)
        @ [retrieve_a_page idX, retrieve_a_page idX, retrieve_a_block idB1]"
    "pageCache c' idB1 = None"
    "isPageAllowed c' idB1 = Some (Inr True, c'')"
    "calls c'' = calls c' @ [retrieve_a_page idB1, retrieve_a_database idB1, retrieve_a_block idB1]"
    by blast
  then show ?thesis by (intro exI[of _ c'] exI[of _ c'']) simp
qed

text \<open>
  C6, as stated, fails on the scenario itself: after \<open>isPageAllowed idX\<close> the cache has no
  entry for \<open>idB1\<close>, and \<open>isPageAllowed idB1\<close> calls the provider three times.
\<close>

theorem scenario_second_call_consults_provider:
  "isPageAllowed (freshController {idP1} scenarioClient) idX = Some (Inr True, scenarioAfterX)
   \<and> pageCache scenarioAfterX idB1 = None
   \<and> map_option fst (isPageAllowed scenarioAfterX idB1) = Some (Inr True)
   \<and> map_option (calls \<circ> snd) (isPageAllowed scenarioAfterX idB1)
       = Some (calls scenarioAfterX
           @ [retrieve_a_page idB1, retrieve_a_database idB1, retrieve_a_block idB1])"
proof -
  from block_between_pages[OF scenario_facts]
  obtain c' c'' where
    r: "isPageAllowed (freshController {idP1} scenarioClient) idX = Some (Inr True, c')"
    and l: "calls c' = calls (freshController {idP1} scenarioClient)
        @ [retrieve_a_page idX, retrieve_a_page idX, retrieve_a_block idB1]"
    and m: "pageCache c' = (pageCache (freshController {idP1} scenarioClient))
                (idP1 \<mapsto> \<lparr>parentId = None, isAllowed = True\<rparr>,
                 idX \<mapsto> \<lparr>parentId = Some idX, isAllowed = True\<rparr>)"
    and n: "pageCache c' idB1 = None"
    and r2: "isPageAllowed c' idB1 = Some (Inr True, c'')"
    and l2: "calls c'' = calls c' @ [retrieve_a_page idB1, retrieve_a_database idB1,
        retrieve_a_block idB1]"
    by blast
  from isPageAllowed_frame[OF r] l m have "c' = scenarioAfterX"
    by (intro controller.equality) (simp_all add: scenarioAfterX_def)
  with r n r2 l2 show ?thesis by simp
qed

section \<open>Resolution of block chains\<close>

lemma resolveContainer_closed_blocks:
  assumes closed: "\<And>x. x \<in> S \<Longrightarrow> \<exists>y\<in>S. hc (retrieve_a_block x) = Inr (Some (block_id y))"
    and b: "b \<in> S"
  shows "resolveContainer hc (block b) log = None"
proof (cases "resolveContainer hc (block b) log")
  case None
  then show ?thesis .
next
  case (Some y)
  have "\<forall>x. t = block x \<longrightarrow> x \<notin> S" if "resolveContainer hc t log = Some y" for t log y
    using that
  proof (induction rule: resolveContainer_cases_induct)
    case (stop t log)
    show ?case
    proof (intro allI impI notI)
      fix x assume t: "t = block x" and x: "x \<in> S"
      from closed[OF x] obtain y where "hc (retrieve_a_block x) = Inr (Some (block_id y))"
        by blast
      with stop t show False by (simp add: nextContainer_def)
    qed
  next
    case (hop t t' log y)
    show ?case
    proof (intro allI impI notI)
      fix x assume t: "t = block x" and x: "x \<in> S"
      from closed[OF x] obtain y where y: "y \<in> S"
        "hc (retrieve_a_block x) = Inr (Some (block_id y))"
        by blast
      with hop(1) t have "t' = block y" by (simp add: nextContainer_def)
      with hop(2) y(1) show False by simp
    qed
  qed
  from this[OF Some] b show ?thesis by simp
qed

lemma resolveContainer_blockChain:
  "blockChain hc (b # bs) p \<Longrightarrow>
   resolveContainer hc (block b) log = Some (Inr (Some p), log @ map retrieve_a_block (b # bs))"
proof (induction bs arbitrary: b log)
  case Nil
  then show ?case by (simp add: resolveContainer_block)
next
  case (Cons b' bs)
  then show ?case by (simp add: resolveContainer_block)
qed

text \<open>
  C8, as the code has it: \<open>resolveBlockToPage\<close> has no hop count. Along a chain of blocks
  of any length that ends below a page it calls the provider once for each block and
  returns the page; on a set of blocks closed under the block parent (a cycle, or an
  endless chain) it never returns.
\<close>

theorem resolveBlockToPage_has_no_hop_bound:
  "(blockChain hc (b # bs) p \<longrightarrow>
      resolveBlockToPage hc b log = Some (Inr (Some p), log @ map retrieve_a_block (b # bs)))
   \<and> ((\<forall>x\<in>S. \<exists>y\<in>S. hc (retrieve_a_block x) = Inr (Some (block_id y))) \<longrightarrow> b \<in> S \<longrightarrow>
      resolveBlockToPage hc b log = None)"
  unfolding resolveBlockToPage_def
  using resolveContainer_blockChain[of hc b bs p log] resolveContainer_closed_blocks[of S hc b log]
  by blast

text \<open>A chain of three blocks, and a block that is its own parent.\<close>

theorem resolveBlockToPage_has_no_hop_bound_witness:
  "blockChain chainClient [idA, idB, idB1] idP1
   \<and> resolveBlockToPage chainClient idA []
       = Some (Inr (Some idP1),
           [retrieve_a_block idA, retrieve_a_block idB, retrieve_a_block idB1])
   \<and> selfParentClient (retrieve_a_block idB1) = Inr (Some (block_id idB1))
   \<and> resolveBlockToPage selfParentClient idB1 [] = None"
proof -
  have c: "blockChain chainClient [idA, idB, idB1] idP1"
    by (simp add: chainClient_def more_ids_distinct more_ids_distinct[symmetric])
  have s: "\<forall>x\<in>{idB1}. \<exists>y\<in>{idB1}. selfParentClient (retrieve_a_block x) = Inr (Some (block_id y))"
    by (simp add: selfParentClient_def)
  from resolveBlockToPage_has_no_hop_bound[of chainClient idA "[idB, idB1]" idP1 "[]" "{}"] c
  have 1: "resolveBlockToPage chainClient idA []
       = Some (Inr (Some idP1),
           [retrieve_a_block idA, retrieve_a_block idB, retrieve_a_block idB1])"
    by simp
  from resolveBlockToPage_has_no_hop_bound[of selfParentClient idB1 "[]" idP1 "[]" "{idB1}"] s
  have 2: "resolveBlockToPage selfParentClient idB1 [] = None"
    by simp
  from c 1 2 show ?thesis by (simp add: selfParentClient_def)
qed

text \<open>
  C8, as stated, fails: on a block that is its own parent the resolution does not return.
\<close>

theorem resolveBlockToPage_diverges_on_cycle:
  "resolveBlockToPage selfParentClient idB1 [] = None"
  unfolding resolveBlockToPage_def
  by (rule resolveContainer_closed_blocks[of "{idB1}"]) (simp_all add: selfParentClient_def)

section \<open>The form of the stored identifiers\<close>



lemma returnedPageIds_simps [simp]:
  "returnedPageIds hc [] = {}"
  "returnedPageIds hc (a @ b) = returnedPageIds hc a \<union> returnedPageIds hc b"
  by (simp_all add: returnedPageIds_def)

lemma returnedPageIds_Cons:
  "returnedPageIds hc (a # b) = returnedPageIds hc [a] \<union> returnedPageIds hc b"
  by (simp add: returnedPageIds_def)

lemma returnedPageIds_single:
  "returnedPageIds hc [op] = (case hc op of Inr (Some (page_id k)) \<Rightarrow> {k} | _ \<Rightarrow> {})"
  by (simp add: returnedPageIds_def split: sum.split option.split parent.split)

lemma toLowerCaseChar_isIdChar: "c \<noteq> CHR ''-'' \<Longrightarrow> isIdChar (toLowerCaseChar c)"
proof -
  assume c: "c \<noteq> CHR ''-''"
  then have d: "toLowerCaseChar c \<noteq> CHR ''-''" by (simp add: toLowerCaseChar_dash)
  show ?thesis
  proof (cases c rule: toLowerCaseChar_cases)
    case upper
    with d show ?thesis by (auto simp: isIdChar_def)
  next
    case other
    with c show ?thesis by (auto simp: isIdChar_def)
  qed
qed

lemma cleanId_isIdChar: "list_all isIdChar (toLowerCase (removeDashes raw))"
  by (induction raw)
     (simp_all add: toLowerCase_def removeDashes_def toLowerCaseChar_isIdChar)

lemma normalizePageId_hasIdShape:
  assumes "normalizePageId raw = Inr r"
  shows "hasIdShape r"
proof -
  define cl where "cl = toLowerCase (removeDashes raw)"
  from assms have len: "length cl = 32"
    and r: "r = slice 0 8 cl @ ''-'' @ slice 8 12 cl @ ''-'' @ slice 12 16 cl
                @ ''-'' @ slice 16 20 cl @ ''-'' @ drop 20 cl"
    by (auto simp: normalizePageId_def Let_def cl_def split: if_splits)
  have ok: "list_all isIdChar cl" unfolding cl_def by (rule cleanId_isIdChar)
  then have t: "\<And>n m. list_all isIdChar (take n (drop m cl))" "\<And>m. list_all isIdChar (drop m cl)"
    by (auto simp: list_all_iff dest: in_set_takeD in_set_dropD)
  from t(1)[of _ 0] have t0: "\<And>n. list_all isIdChar (take n cl)" by simp
  show ?thesis
    unfolding hasIdShape_def r slice_def using len t t0
    by (simp add: min_def)
qed


lemma resolveContainer_returned:
  assumes "resolveContainer hc t log = Some y"
  shows "\<exists>ops. snd y = log @ ops \<and> (\<forall>p. fst y = Inr (Some p) \<longrightarrow> p \<in> returnedPageIds hc ops)"
  using assms
proof (induction rule: resolveContainer_cases_induct)
  case (stop t log)
  have "\<forall>p. containerResult hc t = Some p \<longrightarrow> p \<in> returnedPageIds hc [containerOperation t]"
    by (auto simp: containerResult_def returnedPageIds_single
        split: sum.splits option.splits parent.splits)
  then show ?case by simp
next
  case (hop t t' log y)
  then obtain ops where "snd y = (log @ [containerOperation t]) @ ops"
    "\<forall>p. fst y = Inr (Some p) \<longrightarrow> p \<in> returnedPageIds hc ops" by blast
  then have "snd y = log @ (containerOperation t # ops)
      \<and> (\<forall>p. fst y = Inr (Some p) \<longrightarrow> p \<in> returnedPageIds hc ([containerOperation t] @ ops))"
    by (simp add: returnedPageIds_Cons[of hc _ ops])
  then show ?case by (metis append_Cons append_Nil)
qed

lemma resolveContainer_returned_after:
  assumes "resolveContainer hc t (log @ [op]) = Some (r, log')"
  shows "\<exists>ops. log' = log @ ops \<and> (\<forall>q. r = Inr (Some q) \<longrightarrow> q \<in> returnedPageIds hc ops)"
proof -
  from resolveContainer_returned[OF assms] obtain ops where
    "log' = (log @ [op]) @ ops" "\<forall>q. r = Inr (Some q) \<longrightarrow> q \<in> returnedPageIds hc ops"
    by auto
  then have "log' = log @ (op # ops)
      \<and> (\<forall>q. r = Inr (Some q) \<longrightarrow> q \<in> returnedPageIds hc ([op] @ ops))"
    by (simp add: returnedPageIds_Cons[of hc _ ops])
  then show ?thesis by (metis append_Cons append_Nil)
qed

lemma getParentPageId_returned:
  assumes "getParentPageId hc p log = Some (r, log')"
  shows "\<exists>ops. log' = log @ ops \<and> (\<forall>q. r = Inr (Some q) \<longrightarrow> q \<in> returnedPageIds hc ops)"
proof (cases "hc (retrieve_a_page p)")
  case (Inl e)
  from assms getParentPageId_throws[of hc p e log, OF Inl] show ?thesis by auto
next
  case (Inr pa)
  show ?thesis
  proof (cases pa)
    case None
    with Inr assms getParentPageId_none[of hc p log] show ?thesis by auto
  next
    case (Some par)
    show ?thesis
    proof (cases par)
      case (page_id q)
      with Inr Some assms getParentPageId_page[of hc p q log]
      have "log' = log @ [retrieve_a_page p]" "r = Inr (Some q)" by simp_all
      moreover have "q \<in> returnedPageIds hc [retrieve_a_page p]"
        using Inr Some page_id by (simp add: returnedPageIds_single)
      ultimately show ?thesis by blast
    next
      case (database_id d)
      with Inr Some have h: "hc (retrieve_a_page p) = Inr (Some (database_id d))" by simp
      from assms getParentPageId_database[of hc p d log, OF h]
      have "resolveContainer hc (database d) (log @ [retrieve_a_page p]) = Some (r, log')"
        by simp
      then show ?thesis by (rule resolveContainer_returned_after)
    next
      case (block_id b)
      with Inr Some have h: "hc (retrieve_a_page p) = Inr (Some (block_id b))" by simp
      from assms getParentPageId_block[of hc p b log, OF h]
      have "resolveContainer hc (block b) (log @ [retrieve_a_page p]) = Some (r, log')"
        by simp
      then show ?thesis by (rule resolveContainer_returned_after)
    next
      case other_type
      with Inr Some assms getParentPageId_none[of hc p log] show ?thesis by auto
    qed
  qed
qed

lemma findRootPageForResource_returned:
  assumes "findRootPageForResource hc n log = Some (res, log')"
  shows "\<exists>ops. log' = log @ ops
           \<and> (\<forall>p. res = Inr (Some p) \<longrightarrow> p = n \<or> p \<in> returnedPageIds hc ops)"
  using assms
proof (cases rule: findRootPageForResource_cases)
  case (page r0)
  then show ?thesis by auto
next
  case (database e p)
  from resolveContainer_returned_after[OF database(2)] database(4) show ?thesis by blast
next
  case (block e p l1 q)
  from resolveContainer_returned_after[OF block(2)] obtain o1 where
    o1: "l1 = log @ o1" by blast
  from resolveContainer_returned[OF block(4)] obtain o2 where
    o2: "log' = l1 @ o2" "\<forall>p. q = Some p \<longrightarrow> p \<in> returnedPageIds hc o2"
    by auto
  from o1 o2 block(5) have "log' = log @ (o1 @ o2)
      \<and> (\<forall>p. res = Inr (Some p) \<longrightarrow> p = n \<or> p \<in> returnedPageIds hc (o1 @ o2))"
    by (auto split: if_splits)
  then show ?thesis by blast
qed

lemma dom_cacheSet:
  "dom (pageCache (cacheSet k e c)) = insert k (dom (pageCache c))"
  by simp

lemma dom_cacheVisitedAllowed:
  "dom (pageCache (cacheVisitedAllowed vs c)) = dom (pageCache c) \<union> set vs"
  by (induction vs arbitrary: c) (auto simp: cacheVisitedAllowed_def)

lemma dom_cacheVisitedDenied:
  "dom (pageCache (cacheVisitedDenied vs c)) = dom (pageCache c) \<union> set vs"
  by (induction vs arbitrary: c) (auto simp: cacheVisitedDenied_def)


lemma checkPageHierarchyLoop_keys:
  assumes "checkPageHierarchyLoop c visited cur = Some r"
  shows "\<exists>ops. calls (snd r) = calls c @ ops
           \<and> dom (pageCache (snd r))
               \<subseteq> dom (pageCache c) \<union> set visited \<union> set_option cur
                  \<union> returnedPageIds (httpClient c) ops"
  using assms
proof (induction rule: checkPageHierarchyLoop_cases_induct)
  case (exit c visited cur)
  show ?case by (intro exI[of _ "[]"]) (auto simp: dom_cacheVisitedDenied)
next
  case (root c visited p)
  show ?case by (intro exI[of _ "[]"]) (auto simp: dom_cacheVisitedAllowed)
next
  case (error c visited p e log)
  from getParentPageId_returned[OF error(4)] obtain ops where "log = calls c @ ops" by blast
  then show ?case by (intro exI[of _ ops]) auto
next
  case (step c visited p q log r)
  from getParentPageId_returned[OF step(4)] obtain ops0 where
    o: "log = calls c @ ops0" "\<forall>q'. q = Some q' \<longrightarrow> q' \<in> returnedPageIds (httpClient c) ops0"
    by blast
  have d: "dom (pageCache (cacheSet p \<lparr>parentId = q, isAllowed = False\<rparr> (c\<lparr>calls := log\<rparr>)))
      = insert p (dom (pageCache c))"
    by simp
  from step(6) obtain ops1 where
    i: "calls (snd r) = log @ ops1"
    "dom (pageCache (snd r))
       \<subseteq> insert p (dom (pageCache c)) \<union> set (visited @ [p]) \<union> set_option q
          \<union> returnedPageIds (httpClient c) ops1"
    unfolding d by (auto simp del: cacheSet_fields(4))
  from o(2) have "set_option q \<subseteq> returnedPageIds (httpClient c) ops0"
    by (cases q) auto
  with i o(1) show ?case by (intro exI[of _ "ops0 @ ops1"]) auto
next
  case (break c visited p q log)
  from getParentPageId_returned[OF break(4)] obtain ops where "log = calls c @ ops" by blast
  then show ?case by (intro exI[of _ ops]) (auto simp: dom_cacheVisitedDenied)
qed

lemma isPageAllowed_keys:
  assumes "isPageAllowed c x = Some (r, c')"
  shows "\<exists>ops. calls c' = calls c @ ops
           \<and> (\<forall>k\<in>dom (pageCache c').
                 k \<in> dom (pageCache c) \<or> (normalizePageId x = Inr k \<and> hasIdShape k)
                 \<or> k \<in> returnedPageIds (httpClient c) ops)"
  using assms
proof (cases rule: isPageAllowed_cases)
  case disabled
  then show ?thesis by (intro exI[of _ "[]"]) auto
next
  case (invalid e)
  then show ?thesis by (intro exI[of _ "[]"]) auto
next
  case (root n)
  then show ?thesis by (intro exI[of _ "[]"]) auto
next
  case (cached n entry)
  then show ?thesis by (intro exI[of _ "[]"]) auto
next
  case (unknown n res log)
  from findRootPageForResource_returned[OF unknown(5)] obtain ops where "log = calls c @ ops"
    by blast
  with unknown normalizePageId_hasIdShape[OF unknown(2)] show ?thesis
    by (intro exI[of _ ops]) auto
next
  case (walk n p log b c1)
  from findRootPageForResource_returned[OF walk(5)] obtain ops0 where
    o: "log = calls c @ ops0" "p = n \<or> p \<in> returnedPageIds (httpClient c) ops0"
    by blast
  from checkPageHierarchyLoop_keys[OF walk(7)[unfolded checkPageHierarchy_def]]
  obtain ops1 where
    i: "calls c1 = log @ ops1"
    "dom (pageCache c1) \<subseteq> dom (pageCache c) \<union> {p} \<union> returnedPageIds (httpClient c) ops1"
    by auto
  from normalizePageId_hasIdShape[OF walk(2)] have sh: "hasIdShape n" .
  show ?thesis
  proof (intro exI[of _ "ops0 @ ops1"] conjI ballI)
    show "calls c' = calls c @ ops0 @ ops1" using walk(9) i(1) o(1) by simp
  next
    fix k assume "k \<in> dom (pageCache c')"
    with walk(9) have "k = n \<or> k \<in> dom (pageCache c1)" by auto
    with i(2) o(2) walk(2) sh
    show "k \<in> dom (pageCache c) \<or> (normalizePageId x = Inr k \<and> hasIdShape k)
            \<or> k \<in> returnedPageIds (httpClient c) (ops0 @ ops1)"
      by auto
  qed
qed

lemma addPageIds_shape:
  "addPageIds ids acc = Inr s \<Longrightarrow> \<forall>r\<in>acc. hasIdShape r \<Longrightarrow> \<forall>r\<in>s. hasIdShape r"
proof (induction ids arbitrary: acc)
  case Nil
  then show ?case by simp
next
  case (Cons a ids)
  show ?case
  proof (cases "trim a \<noteq> []")
    case True
    with Cons.prems(1) obtain n where n: "normalizePageId (trim a) = Inr n"
      and rest: "addPageIds ids (insert n acc) = Inr s"
      by (cases "normalizePageId (trim a)") auto
    from normalizePageId_hasIdShape[OF n] Cons.prems(2)
    have "\<forall>r\<in>insert n acc. hasIdShape r" by simp
    from Cons.IH[OF rest this] show ?thesis .
  next
    case False
    with Cons show ?thesis by simp
  qed
qed

lemma addEnvPageIds_shape:
  "addEnvPageIds ids acc = Inr s \<Longrightarrow> \<forall>r\<in>acc. hasIdShape r \<Longrightarrow> \<forall>r\<in>s. hasIdShape r"
proof (induction ids arbitrary: acc)
  case Nil
  then show ?case by simp
next
  case (Cons a ids)
  from Cons.prems(1) obtain n where n: "normalizePageId a = Inr n"
    and rest: "addEnvPageIds ids (insert n acc) = Inr s"
    by (cases "normalizePageId a") auto
  from normalizePageId_hasIdShape[OF n] Cons.prems(2)
  have "\<forall>r\<in>insert n acc. hasIdShape r" by simp
  from Cons.IH[OF rest this] show ?case .
qed

lemma extractPageIdFromUrl_shape: "extractPageIdFromUrl u = Inr n \<Longrightarrow> hasIdShape n"
  by (auto simp: extractPageIdFromUrl_def split: option.splits dest: normalizePageId_hasIdShape)

lemma addPageUrls_shape:
  "\<forall>r\<in>acc. hasIdShape r \<Longrightarrow> \<forall>r\<in>addPageUrls urls acc. hasIdShape r"
proof (induction urls arbitrary: acc)
  case Nil
  then show ?case by simp
next
  case (Cons a urls)
  show ?case
  proof (cases "extractPageIdFromUrl (trim a)")
    case (Inl e)
    with Cons show ?thesis by simp
  next
    case (Inr n)
    from extractPageIdFromUrl_shape[OF Inr] Cons.prems
    have "\<forall>r\<in>insert n acc. hasIdShape r" by simp
    from Cons.IH[OF this] Cons.IH[OF Cons.prems] Inr show ?thesis by simp
  qed
qed

lemma addEnvPageUrls_shape:
  "\<forall>r\<in>acc. hasIdShape r \<Longrightarrow> \<forall>r\<in>addEnvPageUrls urls acc. hasIdShape r"
proof (induction urls arbitrary: acc)
  case Nil
  then show ?case by simp
next
  case (Cons a urls)
  show ?case
  proof (cases "extractPageIdFromUrl a")
    case (Inl e)
    with Cons show ?thesis by simp
  next
    case (Inr n)
    from extractPageIdFromUrl_shape[OF Inr] Cons.prems
    have "\<forall>r\<in>insert n acc. hasIdShape r" by simp
    from Cons.IH[OF this] Inr show ?thesis by simp
  qed
qed

lemma initializeRootPages_shape:
  assumes "initializeRootPages opts env = Inr roots"
  shows "\<forall>r\<in>roots. hasIdShape r"
proof -
  define s1 where "s1 = (case pageIds opts of None \<Rightarrow> Inr {} | Some ids \<Rightarrow> addPageIds ids {})"
  from assms obtain a where a: "s1 = Inr a"
    by (cases s1) (auto simp: initializeRootPages_def s1_def)
  have sa: "\<forall>r\<in>a. hasIdShape r"
    using a addPageIds_shape[of _ "{}" a] by (auto simp: s1_def split: option.splits)
  define s2 where "s2 = (case pageUrls opts of None \<Rightarrow> a | Some urls \<Rightarrow> addPageUrls urls a)"
  have sb: "\<forall>r\<in>s2. hasIdShape r"
    using sa addPageUrls_shape[OF sa] by (auto simp: s2_def split: option.splits)
  show ?thesis
  proof (cases "s2 = {}")
    case False
    with assms a have "roots = s2"
      by (simp add: initializeRootPages_def s1_def[symmetric] s2_def[symmetric] Let_def)
    with sb show ?thesis by simp
  next
    case True
    with assms a obtain s3 where
      s3: "addEnvPageIds (envList (NOTION_ROOT_PAGE_ID env)) s2 = Inr s3"
      and r: "roots = addEnvPageUrls (envList (NOTION_ROOT_PAGE_URL env)) s3"
      by (cases "addEnvPageIds (envList (NOTION_ROOT_PAGE_ID env)) s2")
         (auto simp: initializeRootPages_def s1_def[symmetric] s2_def[symmetric] Let_def)
    from addEnvPageIds_shape[OF s3 sb] have "\<forall>r\<in>s3. hasIdShape r" .
    from addEnvPageUrls_shape[OF this] r show ?thesis by simp
  qed
qed


lemma toLowerCaseChar_hex: "isHexDigit c \<Longrightarrow> isLowerHexDigit (toLowerCaseChar c)"
proof -
  assume h: "isHexDigit c"
  show ?thesis
  proof (cases c rule: toLowerCaseChar_cases)
    case upper
    with h show ?thesis by (auto simp: isHexDigit_def isLowerHexDigit_def Let_def)
  next
    case other
    with h show ?thesis by (auto simp: isHexDigit_def isLowerHexDigit_def Let_def)
  qed
qed

lemma normalizePageId_canonical:
  assumes "normalizePageId raw = Inr r" and hex: "list_all isHexDigit (removeDashes raw)"
  shows "isCanonicalId r"
proof -
  define cl where "cl = toLowerCase (removeDashes raw)"
  from assms have len: "length cl = 32"
    and r: "r = slice 0 8 cl @ ''-'' @ slice 8 12 cl @ ''-'' @ slice 12 16 cl
                @ ''-'' @ slice 16 20 cl @ ''-'' @ drop 20 cl"
    by (auto simp: normalizePageId_def Let_def cl_def split: if_splits)
  have ok: "list_all isLowerHexDigit cl"
    using hex unfolding cl_def toLowerCase_def
    by (induction "removeDashes raw") (auto simp: list_all_iff toLowerCaseChar_hex)
  then have t: "\<And>n m. list_all isLowerHexDigit (take n (drop m cl))"
    "\<And>m. list_all isLowerHexDigit (drop m cl)"
    by (auto simp: list_all_iff dest: in_set_takeD in_set_dropD)
  from t(1)[of _ 0] have t0: "\<And>n. list_all isLowerHexDigit (take n cl)" by simp
  show ?thesis
    unfolding isCanonicalId_def r slice_def using len t t0
    by (simp add: min_def)
qed

lemma unhyphenated_walk:
  "isPageAllowed (freshController {idP1} unhyphenatedClient) idX
     = Some (Inr False, unhyphenatedAfterX)"
proof -
  let ?c = "freshController {idP1} unhyphenatedClient"
  have ne: "idX \<noteq> unhyphenatedP1" "unhyphenatedP1 \<noteq> idP1" "unhyphenatedP1 \<noteq> []"
    by (simp_all add: idX_def idP1_def unhyphenatedP1_def)
  define c0 where "c0 = ?c\<lparr>calls := calls ?c @ [retrieve_a_page idX]\<rparr>"
  define c1 where "c1 = cacheSet idX \<lparr>parentId = Some unhyphenatedP1, isAllowed = False\<rparr>
      (c0\<lparr>calls := calls c0 @ [retrieve_a_page idX]\<rparr>)"
  define c2 where "c2 = cacheSet unhyphenatedP1 \<lparr>parentId = None, isAllowed = False\<rparr>
      (c1\<lparr>calls := calls c1 @ [retrieve_a_page unhyphenatedP1]\<rparr>)"
  have px: "unhyphenatedClient (retrieve_a_page idX) = Inr (Some (page_id unhyphenatedP1))"
    by (simp add: unhyphenatedClient_def)
  have pu: "unhyphenatedClient (retrieve_a_page unhyphenatedP1) = Inr (Some other_type)"
    using ne by (simp add: unhyphenatedClient_def)
  have f: "findRootPageForResource (httpClient ?c) idX (calls ?c)
             = Some (Inr (Some idX), calls ?c @ [retrieve_a_page idX])"
    using findRootPageForResource_page[of unhyphenatedClient idX, OF px] by simp
  have g0: "getParentPageId (httpClient c0) idX (calls c0)
             = Some (Inr (Some unhyphenatedP1), calls c0 @ [retrieve_a_page idX])"
    using getParentPageId_page[of unhyphenatedClient idX, OF px] by (simp add: c0_def)
  have s0: "checkPageHierarchyLoop c0 [] (Some idX)
      = checkPageHierarchyLoop c1 ([] @ [idX]) (Some unhyphenatedP1)"
    unfolding c1_def
    by (rule checkPageHierarchyLoop_step[OF _ _ _ g0])
       (use ne in \<open>simp_all add: c0_def truthy_def example_ids_distinct\<close>)
  have g1: "getParentPageId (httpClient c1) unhyphenatedP1 (calls c1)
             = Some (Inr None, calls c1 @ [retrieve_a_page unhyphenatedP1])"
    using getParentPageId_none[of unhyphenatedClient unhyphenatedP1] pu
    by (simp add: c1_def c0_def)
  have s1: "checkPageHierarchyLoop c1 [idX] (Some unhyphenatedP1)
      = Some (Inr False, cacheVisitedDenied ([idX] @ [unhyphenatedP1]) c2)"
    unfolding c2_def
    by (rule checkPageHierarchyLoop_break[OF _ _ _ g1])
       (use ne in \<open>simp_all add: c1_def c0_def truthy_def\<close>)
  have d: "cacheVisitedDenied [idX, unhyphenatedP1] c2 = c2"
    by (rule cacheVisitedDenied_cached) (simp add: c2_def c1_def)
  have w: "checkPageHierarchy (?c\<lparr>calls := calls ?c @ [retrieve_a_page idX]\<rparr>) idX
      = Some (Inr False, c2)"
    using s0 s1 d by (simp add: checkPageHierarchy_def c0_def)
  have run: "isPageAllowed ?c idX
      = Some (Inr False, cacheSet idX \<lparr>parentId = Some idX, isAllowed = False\<rparr> c2)"
    using isPageAllowed_walk[of ?c idX idX idX, OF _ normalizePageId_examples(1) _ _ f _ w]
    by (simp add: example_ids_distinct)
  have "cacheSet idX \<lparr>parentId = Some idX, isAllowed = False\<rparr> c2 = unhyphenatedAfterX"
    using ne
    by (intro controller.equality)
       (auto simp: c2_def c1_def c0_def unhyphenatedAfterX_def fun_upd_twist)
  with run show ?thesis by simp
qed

text \<open>
  C5, as the code has it. Every member of the root set, and every output of
  \<open>normalizePageId\<close>, has 36 characters with the hyphens in their places and no hyphen or
  upper-case letter elsewhere; it is canonical when the input was hexadecimal, which
  \<open>normalizePageId\<close> does not check. A call of \<open>isPageAllowed\<close> leaves the root set alone,
  and every key it adds to the cache is the normalised input or a page id that a response
  of the provider named during that call, stored as the provider wrote it.
\<close>

theorem stored_ids_are_normalised_or_verbatim:
  "(initializeRootPages opts env = Inr roots \<longrightarrow> (\<forall>r\<in>roots. hasIdShape r))
   \<and> (normalizePageId raw = Inr n \<longrightarrow>
        hasIdShape n \<and> (list_all isHexDigit (removeDashes raw) \<longrightarrow> isCanonicalId n))
   \<and> (isPageAllowed c x = Some (res, c') \<longrightarrow>
        rootPageIds c' = rootPageIds c
        \<and> (\<exists>ops. calls c' = calls c @ ops
              \<and> (\<forall>k\<in>dom (pageCache c').
                    k \<in> dom (pageCache c) \<or> (normalizePageId x = Inr k \<and> hasIdShape k)
                    \<or> k \<in> returnedPageIds (httpClient c) ops)))"
  using initializeRootPages_shape[of opts env roots] normalizePageId_hasIdShape[of raw n]
    normalizePageId_canonical[of raw n] isPageAllowed_frame[of c x res c']
    isPageAllowed_keys[of c x res c']
  by blast

text \<open>
  A root given without hyphens is stored in canonical form; the walk from \<open>idX\<close> stores
  the normalised \<open>idX\<close> and the parent id as the provider wrote it.
\<close>

theorem stored_ids_are_normalised_or_verbatim_witness:
  "initializeRootPages
      \<lparr>pageIds = Some [''11111111111111111111111111111111''], pageUrls = None\<rparr> noEnvironment
     = Inr {idP1}
   \<and> hasIdShape idP1
   \<and> normalizePageId ''11111111111111111111111111111111'' = Inr idP1
   \<and> list_all isHexDigit (removeDashes ''11111111111111111111111111111111'')
   \<and> isCanonicalId idP1
   \<and> isPageAllowed (freshController {idP1} unhyphenatedClient) idX
       = Some (Inr False, unhyphenatedAfterX)
   \<and> dom (pageCache unhyphenatedAfterX) = {idX, unhyphenatedP1}
   \<and> normalizePageId idX = Inr idX \<and> hasIdShape idX
   \<and> unhyphenatedP1 \<in> returnedPageIds unhyphenatedClient
        [retrieve_a_page idX, retrieve_a_page idX, retrieve_a_page unhyphenatedP1]"
proof -
  have i: "initializeRootPages
      \<lparr>pageIds = Some [''11111111111111111111111111111111''], pageUrls = None\<rparr> noEnvironment
     = Inr {idP1}"
    unfolding idP1_def noEnvironment_def by code_simp
  have h: "list_all isHexDigit (removeDashes ''11111111111111111111111111111111'')"
    by code_simp
  note n = normalizePageId_examples(4)
  note w = unhyphenated_walk
  from stored_ids_are_normalised_or_verbatim
    [of "\<lparr>pageIds = Some [''11111111111111111111111111111111''], pageUrls = None\<rparr>"
      noEnvironment "{idP1}" "''11111111111111111111111111111111''" idP1
      "freshController {idP1} unhyphenatedClient" idX "Inr False" unhyphenatedAfterX]
    i n h w
  have a: "hasIdShape idP1" "isCanonicalId idP1" by simp_all
  from stored_ids_are_normalised_or_verbatim
    [of "\<lparr>pageIds = None, pageUrls = None\<rparr>" noEnvironment "{}" idX idX
      "freshController {idP1} unhyphenatedClient" idX "Inr False" unhyphenatedAfterX]
    normalizePageId_examples(1)
  have b: "hasIdShape idX" by simp
  have d: "dom (pageCache unhyphenatedAfterX) = {idX, unhyphenatedP1}"
    by (auto simp: unhyphenatedAfterX_def)
  have r: "unhyphenatedP1 \<in> returnedPageIds unhyphenatedClient
        [retrieve_a_page idX, retrieve_a_page idX, retrieve_a_page unhyphenatedP1]"
    by (simp add: returnedPageIds_def unhyphenatedClient_def)
  from i a n h w d b r normalizePageId_examples(1) show ?thesis by simp
qed

text \<open>
  C5, as stated, fails: a parent id that the provider returns without hyphens becomes a
  cache key as it is (and is not recognised as the root it names), and a raw root id of 32
  letters \<open>z\<close> enters the root set.
\<close>

theorem non_canonical_ids_are_stored:
  "isPageAllowed (freshController {idP1} unhyphenatedClient) idX
     = Some (Inr False, unhyphenatedAfterX)
   \<and> pageCache unhyphenatedAfterX unhyphenatedP1 = Some \<lparr>parentId = None, isAllowed = False\<rparr>
   \<and> \<not> isCanonicalId unhyphenatedP1
   \<and> initializeRootPages
        \<lparr>pageIds = Some [''zzzzzzzzzzzzzzzzzzzzzzzzzzzzzzzz''], pageUrls = None\<rparr> noEnvironment
       = Inr {''zzzzzzzz-zzzz-zzzz-zzzz-zzzzzzzzzzzz''}
   \<and> \<not> isCanonicalId ''zzzzzzzz-zzzz-zzzz-zzzz-zzzzzzzzzzzz''"
proof -
  have 1: "pageCache unhyphenatedAfterX unhyphenatedP1
      = Some \<lparr>parentId = None, isAllowed = False\<rparr>"
    by (simp add: unhyphenatedAfterX_def unhyphenatedP1_def idX_def)
  have 2: "\<not> isCanonicalId unhyphenatedP1"
    by (simp add: isCanonicalId_def unhyphenatedP1_def)
  have 3: "initializeRootPages
        \<lparr>pageIds = Some [''zzzzzzzzzzzzzzzzzzzzzzzzzzzzzzzz''], pageUrls = None\<rparr> noEnvironment
       = Inr {''zzzzzzzz-zzzz-zzzz-zzzz-zzzzzzzzzzzz''}"
    unfolding noEnvironment_def by code_simp
  have 4: "\<not> isCanonicalId ''zzzzzzzz-zzzz-zzzz-zzzz-zzzzzzzzzzzz''"
    by code_simp
  from unhyphenated_walk 1 2 3 4 show ?thesis by simp
qed

section \<open>Walks along the parent chain\<close>



lemma operation_kinds:
  obtains p where "r = retrieve_a_page p" | t where "r = containerOperation t"
proof (cases r)
  case (retrieve_a_page p)
  then show ?thesis by (rule that(1))
next
  case (retrieve_a_block b)
  then have "r = containerOperation (block b)" by (simp add: containerOperation_def)
  then show ?thesis by (rule that(2))
next
  case (retrieve_a_database d)
  then have "r = containerOperation (database d)" by (simp add: containerOperation_def)
  then show ?thesis by (rule that(2))
qed

lemma containerOperation_inject [simp]:
  "containerOperation t = containerOperation t' \<longleftrightarrow> t = t'"
  "containerOperation t \<noteq> retrieve_a_page p"
  "retrieve_a_page p \<noteq> containerOperation t"
  by (cases t; cases t'; simp add: containerOperation_def)+

lemma isRootPage_simps [simp]:
  "isRootPage roots (retrieve_a_page p) \<longleftrightarrow> p \<in> roots"
  "\<not> isRootPage roots (containerOperation t)"
  by (cases t; simp add: isRootPage_def containerOperation_def)+

lemma isPage_simps [simp]:
  "isPage (retrieve_a_page p)"
  "\<not> isPage (containerOperation t)"
  by (cases t; simp add: isPage_def containerOperation_def)+

lemma followedParent_unfold:
  "followedParent hc r =
     (case hc r of
        Inl e \<Rightarrow> None
      | Inr None \<Rightarrow> None
      | Inr (Some (page_id p)) \<Rightarrow> if p = [] then None else Some (retrieve_a_page p)
      | Inr (Some (block_id b)) \<Rightarrow> Some (retrieve_a_block b)
      | Inr (Some (database_id d)) \<Rightarrow>
          (case r of retrieve_a_database i \<Rightarrow> None | _ \<Rightarrow> Some (retrieve_a_database d))
      | Inr (Some other_type) \<Rightarrow> None)"
  by (simp add: followedParent_def reportedParent_def
      split: sum.split option.split parent.split)

lemma followedParent_container_page:
  assumes "followedParent hc (containerOperation t) = Some (retrieve_a_page p)"
  shows "nextContainer hc t = None \<and> containerResult hc t = Some p \<and> p \<noteq> []"
  using assms
  by (cases t)
     (auto simp: followedParent_unfold nextContainer_def containerResult_def containerOperation_def
        split: sum.splits option.splits parent.splits if_splits)

lemma followedParent_container_container:
  assumes "followedParent hc (containerOperation t) = Some (containerOperation t')"
  shows "nextContainer hc t = Some t'"
  using assms
  by (cases t; cases t')
     (auto simp: followedParent_unfold nextContainer_def containerOperation_def
        split: sum.splits option.splits parent.splits if_splits)

lemma followedParent_container_none:
  assumes "followedParent hc (containerOperation t) = None"
  shows "nextContainer hc t = None \<and> \<not> truthy (containerResult hc t)"
  using assms
  by (cases t)
     (auto simp: followedParent_unfold nextContainer_def containerResult_def containerOperation_def
        truthy_def split: sum.splits option.splits parent.splits if_splits)


lemma resolveContainer_reaches:
  "chainReachesRootPage hc roots k (containerOperation t) \<Longrightarrow>
   \<exists>p k' log'. resolveContainer hc t log = Some (Inr (Some p), log') \<and> p \<noteq> [] \<and> k' < k
      \<and> chainReachesRootPage hc roots k' (retrieve_a_page p)"
proof (induction k arbitrary: t log)
  case 0
  then show ?case by simp
next
  case (Suc k)
  then obtain r' where d: "followedParent hc (containerOperation t) = Some r'"
    and c: "chainReachesRootPage hc roots k r'"
    by (auto split: option.splits)
  show ?case
  proof (cases r' rule: operation_kinds)
    case (1 p)
    from followedParent_container_page[OF d[unfolded 1]]
    have "resolveContainer hc t log = Some (Inr (Some p), log @ [containerOperation t])" "p \<noteq> []"
      by (simp_all add: resolveContainer_stop)
    with c 1 show ?thesis by blast
  next
    case (2 t')
    from followedParent_container_container[OF d[unfolded 2]]
    have h: "resolveContainer hc t log = resolveContainer hc t' (log @ [containerOperation t])"
      by (rule resolveContainer_hop)
    from Suc.IH[OF c[unfolded 2], of "log @ [containerOperation t]"] obtain p k' log' where
      "resolveContainer hc t' (log @ [containerOperation t]) = Some (Inr (Some p), log')"
      "p \<noteq> []" "k' < k" "chainReachesRootPage hc roots k' (retrieve_a_page p)"
      by blast
    with h have "resolveContainer hc t log = Some (Inr (Some p), log') \<and> p \<noteq> [] \<and> k' < Suc k
      \<and> chainReachesRootPage hc roots k' (retrieve_a_page p)" by simp
    then show ?thesis by blast
  qed
qed

lemma resolveContainer_stops:
  "chainStops hc roots k (containerOperation t) \<Longrightarrow>
   \<exists>res log'. resolveContainer hc t log = Some (Inr res, log')
      \<and> (\<not> truthy res
          \<or> (\<exists>p k'. res = Some p \<and> p \<noteq> [] \<and> k' < k
                \<and> chainStops hc roots k' (retrieve_a_page p)))"
proof (induction k arbitrary: t log)
  case 0
  then have "followedParent hc (containerOperation t) = None" by simp
  from followedParent_container_none[OF this] show ?case
    by (simp add: resolveContainer_stop)
next
  case (Suc k)
  then obtain r' where d: "followedParent hc (containerOperation t) = Some r'"
    and c: "chainStops hc roots k r'"
    by (auto split: option.splits)
  show ?case
  proof (cases r' rule: operation_kinds)
    case (1 p)
    from followedParent_container_page[OF d[unfolded 1]]
    have "resolveContainer hc t log = Some (Inr (Some p), log @ [containerOperation t])" "p \<noteq> []"
      by (simp_all add: resolveContainer_stop)
    with c 1 show ?thesis by blast
  next
    case (2 t')
    from followedParent_container_container[OF d[unfolded 2]]
    have h: "resolveContainer hc t log = resolveContainer hc t' (log @ [containerOperation t])"
      by (rule resolveContainer_hop)
    from Suc.IH[OF c[unfolded 2], of "log @ [containerOperation t]"] obtain res log' where
      r: "resolveContainer hc t' (log @ [containerOperation t]) = Some (Inr res, log')"
      and e: "\<not> truthy res
          \<or> (\<exists>p k'. res = Some p \<and> p \<noteq> [] \<and> k' < k
                \<and> chainStops hc roots k' (retrieve_a_page p))"
      by blast
    from e have "\<not> truthy res
          \<or> (\<exists>p k'. res = Some p \<and> p \<noteq> [] \<and> k' < Suc k
                \<and> chainStops hc roots k' (retrieve_a_page p))"
      using less_Suc_eq by blast
    with h r show ?thesis by simp
  qed
qed

lemma followedParent_page_cases:
  obtains (none) "followedParent hc (retrieve_a_page p) = None"
      "\<exists>r log'. getParentPageId hc p log = Some (r, log')
          \<and> (\<forall>q. r = Inr q \<longrightarrow> \<not> truthy q)"
  | (page) q where "followedParent hc (retrieve_a_page p) = Some (retrieve_a_page q)"
      "q \<noteq> []" "getParentPageId hc p log = Some (Inr (Some q), log @ [retrieve_a_page p])"
  | (container) t where "followedParent hc (retrieve_a_page p) = Some (containerOperation t)"
      "getParentPageId hc p log = resolveContainer hc t (log @ [retrieve_a_page p])"
proof (cases "hc (retrieve_a_page p)")
  case (Inl e)
  then have "followedParent hc (retrieve_a_page p) = None" by (simp add: followedParent_unfold)
  moreover from getParentPageId_throws[of hc p e log, OF Inl]
  have "\<exists>r log'. getParentPageId hc p log = Some (r, log')
          \<and> (\<forall>q. r = Inr q \<longrightarrow> \<not> truthy q)" by simp
  ultimately show ?thesis by (rule none)
next
  case (Inr pa)
  show ?thesis
  proof (cases pa)
    case None
    with Inr have "followedParent hc (retrieve_a_page p) = None" by (simp add: followedParent_unfold)
    moreover from getParentPageId_none[of hc p log] Inr None
    have "\<exists>r log'. getParentPageId hc p log = Some (r, log')
          \<and> (\<forall>q. r = Inr q \<longrightarrow> \<not> truthy q)" by (simp add: truthy_def)
    ultimately show ?thesis by (rule none)
  next
    case (Some par)
    show ?thesis
    proof (cases par)
      case (page_id q)
      with Inr Some have h: "hc (retrieve_a_page p) = Inr (Some (page_id q))" by simp
      show ?thesis
      proof (cases "q = []")
        case True
        with h have "followedParent hc (retrieve_a_page p) = None"
          by (simp add: followedParent_unfold)
        moreover from getParentPageId_page[of hc p q log, OF h] True
        have "\<exists>r log'. getParentPageId hc p log = Some (r, log')
          \<and> (\<forall>q. r = Inr q \<longrightarrow> \<not> truthy q)" by (simp add: truthy_def)
        ultimately show ?thesis by (rule none)
      next
        case False
        with h have "followedParent hc (retrieve_a_page p) = Some (retrieve_a_page q)"
          by (simp add: followedParent_unfold)
        from this False getParentPageId_page[of hc p q log, OF h] show ?thesis by (rule page)
      qed
    next
      case (database_id d)
      with Inr Some have h: "hc (retrieve_a_page p) = Inr (Some (database_id d))" by simp
      then have "followedParent hc (retrieve_a_page p) = Some (containerOperation (database d))"
        by (simp add: followedParent_unfold containerOperation_def)
      from this getParentPageId_database[of hc p d log, OF h] show ?thesis by (rule container)
    next
      case (block_id b)
      with Inr Some have h: "hc (retrieve_a_page p) = Inr (Some (block_id b))" by simp
      then have "followedParent hc (retrieve_a_page p) = Some (containerOperation (block b))"
        by (simp add: followedParent_unfold containerOperation_def)
      from this getParentPageId_block[of hc p b log, OF h] show ?thesis by (rule container)
    next
      case other_type
      with Inr Some have "followedParent hc (retrieve_a_page p) = None"
        by (simp add: followedParent_unfold)
      moreover from getParentPageId_none[of hc p log] Inr Some other_type
      have "\<exists>r log'. getParentPageId hc p log = Some (r, log')
          \<and> (\<forall>q. r = Inr q \<longrightarrow> \<not> truthy q)" by (simp add: truthy_def)
      ultimately show ?thesis by (rule none)
    qed
  qed
qed

lemma getParentPageId_reaches:
  assumes "chainReachesRootPage hc roots (Suc k) (retrieve_a_page p)"
  shows "\<exists>q k' log'. getParentPageId hc p log = Some (Inr (Some q), log') \<and> q \<noteq> [] \<and> k' \<le> k
      \<and> chainReachesRootPage hc roots k' (retrieve_a_page q)"
proof (cases rule: followedParent_page_cases[of hc p log])
  case none
  with assms show ?thesis by simp
next
  case (page q)
  with assms have "chainReachesRootPage hc roots k (retrieve_a_page q)" by simp
  with page show ?thesis by blast
next
  case (container t)
  with assms have "chainReachesRootPage hc roots k (containerOperation t)" by simp
  from resolveContainer_reaches[OF this, of "log @ [retrieve_a_page p]"] obtain q k' log' where
    "resolveContainer hc t (log @ [retrieve_a_page p]) = Some (Inr (Some q), log')"
    "q \<noteq> []" "k' < k" "chainReachesRootPage hc roots k' (retrieve_a_page q)"
    by blast
  with container(2) have "getParentPageId hc p log = Some (Inr (Some q), log') \<and> q \<noteq> []
      \<and> k' \<le> k \<and> chainReachesRootPage hc roots k' (retrieve_a_page q)" by simp
  then show ?thesis by blast
qed

lemma getParentPageId_stops:
  assumes "chainStops hc roots k (retrieve_a_page p)"
  shows "\<exists>r log'. getParentPageId hc p log = Some (r, log')
      \<and> ((\<forall>q. r = Inr q \<longrightarrow> \<not> truthy q)
          \<or> (\<exists>q k'. r = Inr (Some q) \<and> q \<noteq> [] \<and> k' < k
                \<and> chainStops hc roots k' (retrieve_a_page q)))"
proof (cases rule: followedParent_page_cases[of hc p log])
  case none
  then show ?thesis by blast
next
  case (page q)
  with assms obtain k0 where "k = Suc k0" "chainStops hc roots k0 (retrieve_a_page q)"
    by (cases k) auto
  with page show ?thesis by auto
next
  case (container t)
  with assms obtain k0 where k: "k = Suc k0"
    and c: "chainStops hc roots k0 (containerOperation t)"
    by (cases k) auto
  from resolveContainer_stops[OF c, of "log @ [retrieve_a_page p]"] obtain res log' where
    r: "resolveContainer hc t (log @ [retrieve_a_page p]) = Some (Inr res, log')"
    and e: "\<not> truthy res
          \<or> (\<exists>q k'. res = Some q \<and> q \<noteq> [] \<and> k' < k0
                \<and> chainStops hc roots k' (retrieve_a_page q))"
    by blast
  from container(2) r have g: "getParentPageId hc p log = Some (Inr res, log')" by simp
  from e k have "(\<forall>q. (Inr res :: error + string option) = Inr q \<longrightarrow> \<not> truthy q)
          \<or> (\<exists>q k'. (Inr res :: error + string option) = Inr (Some q) \<and> q \<noteq> [] \<and> k' < k
                \<and> chainStops hc roots k' (retrieve_a_page q))"
    using less_Suc_eq by auto
  with g show ?thesis by blast
qed

lemma chainReachesRootPage_unique:
  "chainReachesRootPage hc roots k r \<Longrightarrow> chainReachesRootPage hc roots m r \<Longrightarrow> k = m"
proof (induction k arbitrary: m r)
  case 0
  then show ?case by (cases m) auto
next
  case (Suc k)
  then obtain m' where m: "m = Suc m'" by (cases m) auto
  from Suc.prems m obtain r' where "followedParent hc r = Some r'"
    "chainReachesRootPage hc roots k r'" "chainReachesRootPage hc roots m' r'"
    by (auto split: option.splits)
  with Suc.IH m show ?case by blast
qed


lemma walk_reaches:
  assumes "chainReachesRootPage (httpClient c) (rootPageIds c) k (retrieve_a_page p)"
    and "p \<noteq> []"
    and "\<forall>v\<in>set visited. \<exists>m. k < m
           \<and> chainReachesRootPage (httpClient c) (rootPageIds c) m (retrieve_a_page v)"
  shows "\<exists>c'. checkPageHierarchyLoop c visited (Some p) = Some (Inr True, c')"
  using assms
proof (induction k arbitrary: c visited p rule: less_induct)
  case (less k)
  have nv: "p \<notin> set visited"
  proof
    assume "p \<in> set visited"
    with less.prems(3) obtain m where "k < m"
      "chainReachesRootPage (httpClient c) (rootPageIds c) m (retrieve_a_page p)" by blast
    with chainReachesRootPage_unique[OF less.prems(1) this(2)] show False by simp
  qed
  show ?case
  proof (cases k)
    case 0
    with less.prems(1) have "p \<in> rootPageIds c" by simp
    from checkPageHierarchyLoop_root[OF less.prems(2) nv this] show ?thesis by blast
  next
    case (Suc k0)
    with less.prems(1) have nr: "p \<notin> rootPageIds c" by simp
    from getParentPageId_reaches[OF less.prems(1)[unfolded Suc], of "calls c"]
    obtain q k' log' where
      g: "getParentPageId (httpClient c) p (calls c) = Some (Inr (Some q), log')"
      and q: "q \<noteq> []" and k': "k' \<le> k0"
      and r: "chainReachesRootPage (httpClient c) (rootPageIds c) k' (retrieve_a_page q)"
      by blast
    define c1 where
      "c1 = cacheSet p \<lparr>parentId = Some q, isAllowed = False\<rparr> (c\<lparr>calls := log'\<rparr>)"
    have st: "checkPageHierarchyLoop c visited (Some p)
        = checkPageHierarchyLoop c1 (visited @ [p]) (Some q)"
      unfolding c1_def
      by (rule checkPageHierarchyLoop_step[OF less.prems(2) nv nr g]) (simp add: truthy_def q)
    have f: "httpClient c1 = httpClient c" "rootPageIds c1 = rootPageIds c"
      by (simp_all add: c1_def)
    have lt: "k' < k" using k' Suc by simp
    have v: "\<forall>v\<in>set (visited @ [p]). \<exists>m. k' < m
           \<and> chainReachesRootPage (httpClient c1) (rootPageIds c1) m (retrieve_a_page v)"
    proof
      fix v assume "v \<in> set (visited @ [p])"
      then consider "v \<in> set visited" | "v = p" by auto
      then show "\<exists>m. k' < m
           \<and> chainReachesRootPage (httpClient c1) (rootPageIds c1) m (retrieve_a_page v)"
      proof cases
        case 1
        with less.prems(3) obtain m where "k < m"
          "chainReachesRootPage (httpClient c) (rootPageIds c) m (retrieve_a_page v)" by blast
        with lt f show ?thesis by (intro exI[of _ m]) simp
      next
        case 2
        with less.prems(1) lt f show ?thesis by (intro exI[of _ k]) simp
      qed
    qed
    from less.IH[OF lt _ q v] r f st show ?thesis by simp
  qed
qed

lemma walk_stops:
  assumes "chainStops (httpClient c) (rootPageIds c) k (retrieve_a_page p)"
  shows "\<exists>c'. checkPageHierarchyLoop c visited (Some p) = Some (Inr False, c')"
  using assms
proof (induction k arbitrary: c visited p rule: less_induct)
  case (less k)
  show ?case
  proof (cases "p = [] \<or> p \<in> set visited")
    case True
    from checkPageHierarchyLoop_exit[OF this] show ?thesis by blast
  next
    case False
    then have p: "p \<noteq> []" and nv: "p \<notin> set visited" by simp_all
    from less.prems have nr: "p \<notin> rootPageIds c"
      by (cases k) simp_all
    from getParentPageId_stops[OF less.prems, of "calls c"] obtain r log' where
      g: "getParentPageId (httpClient c) p (calls c) = Some (r, log')"
      and e: "(\<forall>q. r = Inr q \<longrightarrow> \<not> truthy q)
          \<or> (\<exists>q k'. r = Inr (Some q) \<and> q \<noteq> [] \<and> k' < k
                \<and> chainStops (httpClient c) (rootPageIds c) k' (retrieve_a_page q))"
      by blast
    show ?thesis
    proof (cases r)
      case (Inl err)
      from checkPageHierarchyLoop_error[OF p nv nr g[unfolded Inl]] show ?thesis by blast
    next
      case (Inr q)
      show ?thesis
      proof (cases "truthy q")
        case nt: False
        from checkPageHierarchyLoop_break[OF p nv nr g[unfolded Inr] nt] show ?thesis by blast
      next
        case True
        with e Inr obtain q' k' where q': "q = Some q'" "q' \<noteq> []" and lt: "k' < k"
          and ch: "chainStops (httpClient c) (rootPageIds c) k' (retrieve_a_page q')"
          by auto
        define c1 where
          "c1 = cacheSet p \<lparr>parentId = q, isAllowed = False\<rparr> (c\<lparr>calls := log'\<rparr>)"
        have st: "checkPageHierarchyLoop c visited (Some p)
            = checkPageHierarchyLoop c1 (visited @ [p]) q"
          unfolding c1_def
          by (rule checkPageHierarchyLoop_step[OF p nv nr g[unfolded Inr] True])
        have f: "httpClient c1 = httpClient c" "rootPageIds c1 = rootPageIds c"
          by (simp_all add: c1_def)
        from less.IH[OF lt, of c1 q' "visited @ [p]"] ch f st q' show ?thesis by simp
      qed
    qed
  qed
qed

lemma chainReachesRootPage_nonempty:
  "chainReachesRootPage hc roots k r \<Longrightarrow> roots \<noteq> {}"
  by (induction k arbitrary: r) (auto split: option.splits simp: isRootPage_def split: operation.splits)

lemma chainEndsWithoutRootPage_stops:
  "chainEndsWithoutRootPage hc roots k r \<Longrightarrow> chainStops hc roots k r"
  by (induction k arbitrary: r) (auto split: option.splits)

lemma chainBreaks_stops:
  "chainBreaks hc roots k r \<Longrightarrow> chainStops hc roots k r"
proof (induction k arbitrary: r)
  case 0
  then show ?case by (cases "hc r") (simp_all add: succeeds_def followedParent_unfold)
next
  case (Suc k)
  then show ?case by (auto split: option.splits)
qed

lemma resolveContainer_leadsToPage:
  "leadsToPage hc j (containerOperation t) \<Longrightarrow>
   \<exists>p log'. resolveContainer hc t log = Some (Inr (Some p), log') \<and> p \<noteq> []"
proof (induction j arbitrary: t log)
  case 0
  then show ?case by simp
next
  case (Suc j)
  then obtain r' where d: "followedParent hc (containerOperation t) = Some r'"
    and c: "leadsToPage hc j r'"
    by (auto split: option.splits)
  show ?case
  proof (cases r' rule: operation_kinds)
    case (1 p)
    from followedParent_container_page[OF d[unfolded 1]] show ?thesis
      by (simp add: resolveContainer_stop)
  next
    case (2 t')
    from followedParent_container_container[OF d[unfolded 2]]
    have "resolveContainer hc t log = resolveContainer hc t' (log @ [containerOperation t])"
      by (rule resolveContainer_hop)
    with Suc.IH[OF c[unfolded 2], of "log @ [containerOperation t]"] show ?thesis by simp
  qed
qed

lemma resolveContainer_stopsBeforePage:
  "stopsBeforePage hc j (containerOperation t) \<Longrightarrow>
   \<exists>res log'. resolveContainer hc t log = Some (Inr res, log') \<and> \<not> truthy res"
proof (induction j arbitrary: t log)
  case 0
  then have "followedParent hc (containerOperation t) = None" by simp
  from followedParent_container_none[OF this] show ?case
    by (simp add: resolveContainer_stop)
next
  case (Suc j)
  then obtain r' where d: "followedParent hc (containerOperation t) = Some r'"
    and c: "stopsBeforePage hc j r'"
    by (auto split: option.splits)
  show ?case
  proof (cases r' rule: operation_kinds)
    case (1 p)
    with c show ?thesis by (cases j) simp_all
  next
    case (2 t')
    from followedParent_container_container[OF d[unfolded 2]]
    have "resolveContainer hc t log = resolveContainer hc t' (log @ [containerOperation t])"
      by (rule resolveContainer_hop)
    with Suc.IH[OF c[unfolded 2], of "log @ [containerOperation t]"] show ?thesis by simp
  qed
qed

lemma succeeds_iff:
  "succeeds hc op \<longleftrightarrow> (\<exists>r. hc op = Inr r)" "\<not> succeeds hc op \<longleftrightarrow> (\<exists>e. hc op = Inl e)"
  by (cases "hc op"; simp add: succeeds_def)+

lemma resourceOf_cases [consumes 1, case_names page database block]:
  assumes "resourceOf hc j n = Some r"
  obtains r0 where "r = retrieve_a_page n" "hc (retrieve_a_page n) = Inr r0"
  | e where "r = containerOperation (database n)" "hc (retrieve_a_page n) = Inl e"
      "leadsToPage hc j (containerOperation (database n))"
  | e where "r = containerOperation (block n)" "hc (retrieve_a_page n) = Inl e"
      "stopsBeforePage hc j (containerOperation (database n))"
proof (cases "hc (retrieve_a_page n)")
  case (Inr r0)
  with assms have "r = retrieve_a_page n" by (simp add: resourceOf_def succeeds_def)
  from that(1)[OF this Inr] show ?thesis .
next
  case (Inl e)
  show ?thesis
  proof (cases "leadsToPage hc j (retrieve_a_database n)")
    case True
    with assms Inl have "r = containerOperation (database n)"
      by (simp add: resourceOf_def succeeds_def containerOperation_def)
    from that(2)[OF this Inl] True show ?thesis by (simp add: containerOperation_def)
  next
    case False
    with assms Inl have "r = containerOperation (block n)"
      and "stopsBeforePage hc j (containerOperation (database n))"
      by (auto simp: resourceOf_def succeeds_def containerOperation_def split: if_splits)
    from that(3)[OF this(1) Inl this(2)] show ?thesis .
  qed
qed

lemma probe_reaches:
  assumes kind: "resourceOf hc j n = Some r" and ch: "chainReachesRootPage hc roots k r"
    and n: "n \<noteq> []"
  shows "\<exists>p k' log'. findRootPageForResource hc n log = Some (Inr (Some p), log') \<and> p \<noteq> []
      \<and> chainReachesRootPage hc roots k' (retrieve_a_page p)"
  using kind
proof (cases rule: resourceOf_cases)
  case (page r0)
  from findRootPageForResource_page[of hc n r0 log, OF page(2)] ch page(1) n
  show ?thesis by blast
next
  case (database e)
  from resolveContainer_reaches[OF ch[unfolded database(1)], of "log @ [retrieve_a_page n]"]
  obtain p k' log' where
    d: "resolveContainer hc (database n) (log @ [retrieve_a_page n]) = Some (Inr (Some p), log')"
    and p: "p \<noteq> []" "chainReachesRootPage hc roots k' (retrieve_a_page p)" by blast
  from findRootPageForResource_database[OF database(2) d] p
  have "findRootPageForResource hc n log = Some (Inr (Some p), log') \<and> p \<noteq> []
      \<and> chainReachesRootPage hc roots k' (retrieve_a_page p)"
    by (simp add: truthy_def)
  then show ?thesis by blast
next
  case (block e)
  from resolveContainer_stopsBeforePage[OF block(3), of "log @ [retrieve_a_page n]"]
  obtain res l1 where
    d: "resolveContainer hc (database n) (log @ [retrieve_a_page n]) = Some (Inr res, l1)"
    and nt: "\<not> truthy res" by blast
  from resolveContainer_reaches[OF ch[unfolded block(1)], of l1]
  obtain p k' log' where
    b: "resolveContainer hc (block n) l1 = Some (Inr (Some p), log')"
    and p: "p \<noteq> []" "chainReachesRootPage hc roots k' (retrieve_a_page p)" by blast
  from findRootPageForResource_block[OF block(2) d nt b] p
  have "findRootPageForResource hc n log = Some (Inr (Some p), log') \<and> p \<noteq> []
      \<and> chainReachesRootPage hc roots k' (retrieve_a_page p)"
    by (simp add: truthy_def)
  then show ?thesis by blast
qed

lemma probe_stops:
  assumes kind: "resourceOf hc j n = Some r" and ch: "chainStops hc roots k r"
  shows "\<exists>res log'. findRootPageForResource hc n log = Some (Inr res, log')
      \<and> (\<not> truthy res
          \<or> (\<exists>p k'. res = Some p \<and> p \<noteq> []
                \<and> chainStops hc roots k' (retrieve_a_page p)))"
  using kind
proof (cases rule: resourceOf_cases)
  case (page r0)
  from findRootPageForResource_page[of hc n r0 log, OF page(2)] ch page(1)
  show ?thesis by (cases "n = []") (auto simp: truthy_def)
next
  case (database e)
  from resolveContainer_leadsToPage[OF database(3), of "log @ [retrieve_a_page n]"]
  obtain p log' where
    d: "resolveContainer hc (database n) (log @ [retrieve_a_page n]) = Some (Inr (Some p), log')"
    and p: "p \<noteq> []" by blast
  from resolveContainer_stops[OF ch[unfolded database(1)], of "log @ [retrieve_a_page n]"] d p
  obtain k' where c: "chainStops hc roots k' (retrieve_a_page p)"
    by (auto simp: truthy_def)
  from findRootPageForResource_database[OF database(2) d] p
  have "findRootPageForResource hc n log = Some (Inr (Some p), log')"
    by (simp add: truthy_def)
  with p c show ?thesis by blast
next
  case (block e)
  from resolveContainer_stopsBeforePage[OF block(3), of "log @ [retrieve_a_page n]"]
  obtain res l1 where
    d: "resolveContainer hc (database n) (log @ [retrieve_a_page n]) = Some (Inr res, l1)"
    and nt: "\<not> truthy res" by blast
  from resolveContainer_stops[OF ch[unfolded block(1)], of l1]
  obtain q log' where
    b: "resolveContainer hc (block n) l1 = Some (Inr q, log')"
    and c: "\<not> truthy q
          \<or> (\<exists>p k'. q = Some p \<and> p \<noteq> [] \<and> k' < k
                \<and> chainStops hc roots k' (retrieve_a_page p))"
    by blast
  note eq = findRootPageForResource_block[OF block(2) d nt b]
  show ?thesis
  proof (cases "truthy q")
    case True
    with eq c show ?thesis by auto
  next
    case False
    with eq show ?thesis by (simp add: truthy_def)
  qed
qed

lemma allowed_when_chain_reaches:
  assumes n: "normalizePageId x = Inr n" and miss: "pageCache c n = None"
    and kind: "resourceOf (httpClient c) j n = Some r"
    and ch: "chainReachesRootPage (httpClient c) (rootPageIds c) k r"
  shows "\<exists>c'. isPageAllowed c x = Some (Inr True, c')"
proof (cases "n \<in> rootPageIds c")
  case True
  from isPageAllowed_root[OF n True] show ?thesis by blast
next
  case nr: False
  from probe_reaches[OF kind ch normalizePageId_nonempty[OF n], of "calls c"]
  obtain p k' log' where
    f: "findRootPageForResource (httpClient c) n (calls c) = Some (Inr (Some p), log')"
    and p: "p \<noteq> []"
    and r: "chainReachesRootPage (httpClient c) (rootPageIds c) k' (retrieve_a_page p)"
    by blast
  from r have en: "rootPageIds c \<noteq> {}" by (rule chainReachesRootPage_nonempty)
  from walk_reaches[of "c\<lparr>calls := log'\<rparr>" k' p "[]"] r p obtain c1 where
    w: "checkPageHierarchy (c\<lparr>calls := log'\<rparr>) p = Some (Inr True, c1)"
    by (auto simp: checkPageHierarchy_def)
  from isPageAllowed_walk[OF en n nr miss f p w] show ?thesis by simp
qed

lemma denied_when_chain_stops:
  assumes en: "rootPageIds c \<noteq> {}" and n: "normalizePageId x = Inr n"
    and nr: "n \<notin> rootPageIds c" and miss: "pageCache c n = None"
    and kind: "resourceOf (httpClient c) j n = Some r"
    and ch: "chainStops (httpClient c) (rootPageIds c) k r"
  shows "\<exists>c'. isPageAllowed c x = Some (Inr False, c')
           \<and> (\<exists>e. pageCache c' n = Some e \<and> \<not> isAllowed e)"
proof -
  from probe_stops[OF kind ch, of "calls c"] obtain res log' where
    f: "findRootPageForResource (httpClient c) n (calls c) = Some (Inr res, log')"
    and e: "\<not> truthy res
          \<or> (\<exists>p k'. res = Some p \<and> p \<noteq> []
                \<and> chainStops (httpClient c) (rootPageIds c) k' (retrieve_a_page p))"
    by blast
  show ?thesis
  proof (cases "truthy res")
    case False
    from isPageAllowed_unknown[OF en n nr miss f False] show ?thesis by simp
  next
    case True
    with e obtain p k' where p: "res = Some p" "p \<noteq> []"
      and r: "chainStops (httpClient c) (rootPageIds c) k' (retrieve_a_page p)"
      by blast
    from walk_stops[of "c\<lparr>calls := log'\<rparr>" k' p "[]"] r obtain c1 where
      w: "checkPageHierarchy (c\<lparr>calls := log'\<rparr>) p = Some (Inr False, c1)"
      by (auto simp: checkPageHierarchy_def)
    from isPageAllowed_walk[OF en n nr miss f[unfolded p(1)] p(2) w] show ?thesis by simp
  qed
qed

lemma more_normalizePageId_examples:
  "normalizePageId idD1 = Inr idD1"
  unfolding idD1_def by code_simp

text \<open>
  C1, as the code has it. Take an id that normalises and has no cache entry, and the
  resource it names in the order of the probes. The chain is followed as the provider
  reports it, except that a database whose parent is a database, and a parent page with
  the empty id, count as having no parent. If the chain of the resource reaches a page
  that is a member of the root set after finitely many hops, \<open>isPageAllowed\<close> returns
  \<open>true\<close>. If access control is on, the id is not itself a member of the root set, and
  the chain stops after finitely many hops at a resource that the provider serves, with no
  page on it in the root set, \<open>isPageAllowed\<close> returns \<open>false\<close>. Only the pages of the
  chain are compared with the root set: a block or a database on the chain that is a member
  of the root set does not make the result \<open>true\<close>.
\<close>

theorem isPageAllowed_follows_chain_to_root_page:
  assumes "normalizePageId x = Inr n" and "pageCache c n = None"
    and "resourceOf (httpClient c) j n = Some r"
  shows "(chainReachesRootPage (httpClient c) (rootPageIds c) k r \<longrightarrow>
            (\<exists>c'. isPageAllowed c x = Some (Inr True, c')))
       \<and> (rootPageIds c \<noteq> {} \<and> n \<notin> rootPageIds c
            \<and> chainEndsWithoutRootPage (httpClient c) (rootPageIds c) k r \<longrightarrow>
            (\<exists>c'. isPageAllowed c x = Some (Inr False, c')))"
proof (intro conjI impI)
  assume "chainReachesRootPage (httpClient c) (rootPageIds c) k r"
  from allowed_when_chain_reaches[OF assms this]
  show "\<exists>c'. isPageAllowed c x = Some (Inr True, c')" .
next
  assume h: "rootPageIds c \<noteq> {} \<and> n \<notin> rootPageIds c
            \<and> chainEndsWithoutRootPage (httpClient c) (rootPageIds c) k r"
  then have "chainStops (httpClient c) (rootPageIds c) k r"
    by (simp add: chainEndsWithoutRootPage_stops)
  from denied_when_chain_stops[OF _ assms(1) _ assms(2,3) this] h
  show "\<exists>c'. isPageAllowed c x = Some (Inr False, c')" by blast
qed

text \<open>
  Five chains. The page \<open>idX\<close> two hops below the root page \<open>idP1\<close> and the block
  \<open>idB1\<close> one hop below it are allowed. The database \<open>idD1\<close> in the page \<open>idP2\<close>, which
  has no parent and is no root, is denied. The page \<open>idX\<close> in the database \<open>idD1\<close> is
  denied when \<open>idD1\<close> is the only root, and it is denied below the root page \<open>idP1\<close> when
  the database \<open>idD1\<close> lies in a database.
\<close>

theorem isPageAllowed_follows_chain_to_root_page_witness:
  "resourceOf scenarioClient 0 idX = Some (retrieve_a_page idX)
   \<and> chainReachesRootPage scenarioClient {idP1} (Suc (Suc 0)) (retrieve_a_page idX)
   \<and> (\<exists>c'. isPageAllowed (freshController {idP1} scenarioClient) idX = Some (Inr True, c'))
   \<and> resourceOf scenarioClient 0 idB1 = Some (retrieve_a_block idB1)
   \<and> chainReachesRootPage scenarioClient {idP1} (Suc 0) (retrieve_a_block idB1)
   \<and> (\<exists>c'. isPageAllowed (freshController {idP1} scenarioClient) idB1 = Some (Inr True, c'))
   \<and> resourceOf otherPageClient (Suc 0) idD1 = Some (retrieve_a_database idD1)
   \<and> chainEndsWithoutRootPage otherPageClient {idP1} (Suc 0) (retrieve_a_database idD1)
   \<and> (\<exists>c'. isPageAllowed (freshController {idP1} otherPageClient) idD1 = Some (Inr False, c'))
   \<and> resourceOf databaseRootClient 0 idX = Some (retrieve_a_page idX)
   \<and> chainEndsWithoutRootPage databaseRootClient {idD1} (Suc 0) (retrieve_a_page idX)
   \<and> (\<exists>c'. isPageAllowed (freshController {idD1} databaseRootClient) idX = Some (Inr False, c'))
   \<and> resourceOf nestedDatabaseClient 0 idX = Some (retrieve_a_page idX)
   \<and> chainEndsWithoutRootPage nestedDatabaseClient {idP1} (Suc 0) (retrieve_a_page idX)
   \<and> (\<exists>c'. isPageAllowed (freshController {idP1} nestedDatabaseClient) idX
              = Some (Inr False, c'))"
proof -
  have k1: "resourceOf scenarioClient 0 idX = Some (retrieve_a_page idX)"
    by code_simp
  have c1: "chainReachesRootPage scenarioClient {idP1} (Suc (Suc 0)) (retrieve_a_page idX)"
    by code_simp
  have k2: "resourceOf scenarioClient 0 idB1 = Some (retrieve_a_block idB1)"
    by code_simp
  have c2: "chainReachesRootPage scenarioClient {idP1} (Suc 0) (retrieve_a_block idB1)"
    by code_simp
  have k3: "resourceOf otherPageClient (Suc 0) idD1 = Some (retrieve_a_database idD1)"
    by code_simp
  have c3: "chainEndsWithoutRootPage otherPageClient {idP1} (Suc 0) (retrieve_a_database idD1)"
    by code_simp
  have k4: "resourceOf databaseRootClient 0 idX = Some (retrieve_a_page idX)"
    by code_simp
  have c4: "chainEndsWithoutRootPage databaseRootClient {idD1} (Suc 0) (retrieve_a_page idX)"
    by code_simp
  have k5: "resourceOf nestedDatabaseClient 0 idX = Some (retrieve_a_page idX)"
    by code_simp
  have c5: "chainEndsWithoutRootPage nestedDatabaseClient {idP1} (Suc 0) (retrieve_a_page idX)"
    by code_simp
  have ne: "idX \<noteq> idD1" "idD1 \<noteq> idP1"
    by (simp_all add: idX_def idD1_def idP1_def)
  let ?s = "freshController {idP1} scenarioClient"
  let ?o = "freshController {idP1} otherPageClient"
  let ?d = "freshController {idD1} databaseRootClient"
  let ?n = "freshController {idP1} nestedDatabaseClient"
  have a1: "\<exists>c'. isPageAllowed ?s idX = Some (Inr True, c')"
    using isPageAllowed_follows_chain_to_root_page
      [of idX idX ?s 0 "retrieve_a_page idX" "Suc (Suc 0)"] normalizePageId_examples(1) k1 c1
    by (simp only: freshController_fields, simp?)
  have a2: "\<exists>c'. isPageAllowed ?s idB1 = Some (Inr True, c')"
    using isPageAllowed_follows_chain_to_root_page
      [of idB1 idB1 ?s 0 "retrieve_a_block idB1" "Suc 0"] normalizePageId_examples(2) k2 c2
    by (simp only: freshController_fields, simp?)
  have a3: "\<exists>c'. isPageAllowed ?o idD1 = Some (Inr False, c')"
    using isPageAllowed_follows_chain_to_root_page
      [of idD1 idD1 ?o "Suc 0" "retrieve_a_database idD1" "Suc 0"]
      more_normalizePageId_examples k3 c3 ne
    by (simp only: freshController_fields, simp?)
  have a4: "\<exists>c'. isPageAllowed ?d idX = Some (Inr False, c')"
    using isPageAllowed_follows_chain_to_root_page
      [of idX idX ?d 0 "retrieve_a_page idX" "Suc 0"] normalizePageId_examples(1) k4 c4 ne
    by (simp only: freshController_fields, simp?)
  have a5: "\<exists>c'. isPageAllowed ?n idX = Some (Inr False, c')"
    using isPageAllowed_follows_chain_to_root_page
      [of idX idX ?n 0 "retrieve_a_page idX" "Suc 0"] normalizePageId_examples(1) k5 c5
      example_ids_distinct
    by (simp only: freshController_fields, simp?)
  from k1 c1 a1 k2 c2 a2 k3 c3 a3 k4 c4 a4 k5 c5 a5 show ?thesis by blast
qed

text \<open>
  C1, as stated, fails in two ways. When the member of the root set that the chain reaches
  is not a page: with the database \<open>idD1\<close> as the root, the page \<open>idX\<close> in that database
  is one hop from the root and is denied, while \<open>idD1\<close> itself is allowed. And when the
  chain passes from a database to a database: the page \<open>idX\<close> is three reported hops below
  the root page \<open>idP1\<close> and is denied.
\<close>

theorem page_below_database_root_is_denied:
  "resourceOf databaseRootClient 0 idX = Some (retrieve_a_page idX)
   \<and> chainReachesRoot databaseRootClient {idD1} (Suc 0) (retrieve_a_page idX)
   \<and> map_option fst (isPageAllowed (freshController {idD1} databaseRootClient) idX)
       = Some (Inr False)
   \<and> map_option fst (isPageAllowed (freshController {idD1} databaseRootClient) idD1)
       = Some (Inr True)
   \<and> chainReachesRoot nestedDatabaseClient {idP1} (Suc (Suc (Suc 0))) (retrieve_a_page idX)
   \<and> map_option fst (isPageAllowed (freshController {idP1} nestedDatabaseClient) idX)
       = Some (Inr False)"
  by code_simp

section \<open>Construction of the root set\<close>

text \<open>
  C3: a malformed raw id among the configured page ids is not skipped. The constructor
  throws at it, so no controller exists and the well-formed id after it never enters the
  root set.
\<close>

theorem constructor_throws_on_malformed_page_id:
  "newPageAccessController
     \<lparr>pageIds = Some [''not-a-page-id'', ''11111111111111111111111111111111''], pageUrls = None\<rparr>
     hc env
   = Inl (InvalidPageId ''not-a-page-id'')"
  by (simp add: newPageAccessController_def initializeRootPages_def trim_def isWhitespace_def
      normalizePageId_def removeDashes_def toLowerCase_def)

text \<open>The loop over the URLs does skip a malformed entry and keeps the rest.\<close>

lemma initializeRootPages_skips_malformed_page_url:
  "initializeRootPages
     \<lparr>pageIds = None,
      pageUrls = Some [''https://notion.so/not-a-page'',
                       ''https://notion.so/Title-11111111111111111111111111111111'']\<rparr>
     env
   = Inr {''11111111-1111-1111-1111-111111111111''}"
  by code_simp

section \<open>Failures of the provider\<close>

lemma checkPageHierarchy_parent_throws:
  assumes "p \<noteq> []" and "p \<notin> rootPageIds c" and "httpClient c (retrieve_a_page p) = Inl e"
  shows "checkPageHierarchy c p
     = Some (Inr False,
         cacheSet p \<lparr>parentId = None, isAllowed = False\<rparr>
           (c\<lparr>calls := calls c @ [retrieve_a_page p]\<rparr>))"
  unfolding checkPageHierarchy_def
  using checkPageHierarchyLoop_error[of p "[]" c e "calls c @ [retrieve_a_page p]"]
    getParentPageId_throws[of "httpClient c" p e "calls c"] assms
  by simp

lemma isPageAllowed_throws_only_for_invalid_id:
  assumes "isPageAllowed c x = Some (Inl err, c')"
  shows "err = InvalidPageId x \<and> normalizePageId x = Inl err \<and> c' = c"
  using assms
proof (cases rule: isPageAllowed_cases)
  case (invalid e')
  then show ?thesis by (auto simp: normalizePageId_def Let_def split: if_splits)
qed simp_all

text \<open>
  C10. An exception that leaves \<open>isPageAllowed\<close> is the one \<open>normalizePageId\<close> raised for
  the input, and the controller is then unchanged; for an input that normalises there is
  none. No exception leaves \<open>resolveBlockToPage\<close>, \<open>getDatabaseParent\<close>,
  \<open>findRootPageForResource\<close> or \<open>checkPageHierarchy\<close>, whatever the provider throws. When
  the provider throws at a block or a database, its resolution returns \<open>null\<close> after that
  one call; when it throws at the page the walk stands on, the walk returns \<open>false\<close> and
  caches the page as not allowed. And when the chain of the resource an id names breaks
  after finitely many hops at a resource whose retrieval throws, with no page in the root
  set before it, \<open>isPageAllowed\<close> returns \<open>false\<close> and caches the id as not allowed.
\<close>

theorem isPageAllowed_catches_provider_failures:
  "(isPageAllowed c x = Some (Inl err, c') \<longrightarrow>
      err = InvalidPageId x \<and> normalizePageId x = Inl err \<and> c' = c)
   \<and> (normalizePageId x = Inr n \<longrightarrow> isPageAllowed c x \<noteq> Some (Inl err, c'))
   \<and> resolveBlockToPage hc i log \<noteq> Some (Inl err, log')
   \<and> getDatabaseParent hc i log \<noteq> Some (Inl err, log')
   \<and> findRootPageForResource hc i log \<noteq> Some (Inl err, log')
   \<and> checkPageHierarchy c p \<noteq> Some (Inl err, c')
   \<and> (hc (retrieve_a_block i) = Inl e \<longrightarrow>
        resolveBlockToPage hc i log = Some (Inr None, log @ [retrieve_a_block i]))
   \<and> (hc (retrieve_a_database i) = Inl e \<longrightarrow>
        getDatabaseParent hc i log = Some (Inr None, log @ [retrieve_a_database i]))
   \<and> (p \<noteq> [] \<and> p \<notin> rootPageIds c \<and> httpClient c (retrieve_a_page p) = Inl e \<longrightarrow>
        checkPageHierarchy c p
          = Some (Inr False,
              cacheSet p \<lparr>parentId = None, isAllowed = False\<rparr>
                (c\<lparr>calls := calls c @ [retrieve_a_page p]\<rparr>)))
   \<and> (rootPageIds c \<noteq> {} \<and> normalizePageId x = Inr n \<and> n \<notin> rootPageIds c
        \<and> pageCache c n = None \<and> resourceOf (httpClient c) j n = Some r
        \<and> chainBreaks (httpClient c) (rootPageIds c) k r \<longrightarrow>
        (\<exists>c''. isPageAllowed c x = Some (Inr False, c'')
            \<and> (\<exists>entry. pageCache c'' n = Some entry \<and> \<not> isAllowed entry)))"
proof -
  have p1: "isPageAllowed c x = Some (Inl err, c') \<longrightarrow>
      err = InvalidPageId x \<and> normalizePageId x = Inl err \<and> c' = c"
    using isPageAllowed_throws_only_for_invalid_id[of c x err c'] by blast
  have p2: "normalizePageId x = Inr n \<longrightarrow> isPageAllowed c x \<noteq> Some (Inl err, c')"
    using isPageAllowed_throws_only_for_invalid_id[of c x err c'] by auto
  have p3: "resolveBlockToPage hc i log \<noteq> Some (Inl err, log')"
    unfolding resolveBlockToPage_def
    using resolveContainer_never_throws[of hc "block i" log "Inl err" log'] by auto
  have p4: "getDatabaseParent hc i log \<noteq> Some (Inl err, log')"
    unfolding getDatabaseParent_def
    using resolveContainer_never_throws[of hc "database i" log "Inl err" log'] by auto
  have p5: "findRootPageForResource hc i log \<noteq> Some (Inl err, log')"
    using findRootPageForResource_never_throws[of hc i log "Inl err" log'] by auto
  have p6: "checkPageHierarchy c p \<noteq> Some (Inl err, c')"
    using checkPageHierarchy_never_throws[of c p "Inl err" c'] by auto
  have p7: "hc (retrieve_a_block i) = Inl e \<longrightarrow>
        resolveBlockToPage hc i log = Some (Inr None, log @ [retrieve_a_block i])"
    by (simp add: resolveBlockToPage_def resolveContainer_block)
  have p8: "hc (retrieve_a_database i) = Inl e \<longrightarrow>
        getDatabaseParent hc i log = Some (Inr None, log @ [retrieve_a_database i])"
    by (simp add: getDatabaseParent_def resolveContainer_database)
  have p9: "p \<noteq> [] \<and> p \<notin> rootPageIds c \<and> httpClient c (retrieve_a_page p) = Inl e \<longrightarrow>
        checkPageHierarchy c p
          = Some (Inr False,
              cacheSet p \<lparr>parentId = None, isAllowed = False\<rparr>
                (c\<lparr>calls := calls c @ [retrieve_a_page p]\<rparr>))"
    by (simp add: checkPageHierarchy_parent_throws)
  have p10: "rootPageIds c \<noteq> {} \<and> normalizePageId x = Inr n \<and> n \<notin> rootPageIds c
        \<and> pageCache c n = None \<and> resourceOf (httpClient c) j n = Some r
        \<and> chainBreaks (httpClient c) (rootPageIds c) k r \<longrightarrow>
        (\<exists>c''. isPageAllowed c x = Some (Inr False, c'')
            \<and> (\<exists>entry. pageCache c'' n = Some entry \<and> \<not> isAllowed entry))"
  proof
    assume h: "rootPageIds c \<noteq> {} \<and> normalizePageId x = Inr n \<and> n \<notin> rootPageIds c
        \<and> pageCache c n = None \<and> resourceOf (httpClient c) j n = Some r
        \<and> chainBreaks (httpClient c) (rootPageIds c) k r"
    then have st: "chainStops (httpClient c) (rootPageIds c) k r"
      by (simp add: chainBreaks_stops)
    from h have en: "rootPageIds c \<noteq> {}" and n: "normalizePageId x = Inr n"
      and nr: "n \<notin> rootPageIds c" and miss: "pageCache c n = None"
      and kind: "resourceOf (httpClient c) j n = Some r" by simp_all
    from denied_when_chain_stops[OF en n nr miss kind st]
    show "\<exists>c''. isPageAllowed c x = Some (Inr False, c'')
            \<and> (\<exists>entry. pageCache c'' n = Some entry \<and> \<not> isAllowed entry)" .
  qed
  show ?thesis by (intro conjI) (fact p1 p2 p3 p4 p5 p6 p7 p8 p9 p10)+
qed

text \<open>
  A malformed input raises the error of the normalisation. On a provider that throws at
  every operation the resolutions of \<open>idB1\<close> return \<open>null\<close>, the walk from \<open>idB1\<close>
  returns \<open>false\<close>, and the well-formed id \<open>idX\<close>, whose three probes throw, is denied. On
  a provider that serves the page \<open>idX\<close> and throws at its parent page \<open>idB1\<close>, the chain
  of \<open>idX\<close> breaks after one hop and \<open>idX\<close> is denied.
\<close>

theorem isPageAllowed_catches_provider_failures_witness:
  "isPageAllowed (freshController {idP1} failingClient) ''abc123''
     = Some (Inl (InvalidPageId ''abc123''), freshController {idP1} failingClient)
   \<and> normalizePageId ''abc123'' = Inl (InvalidPageId ''abc123'')
   \<and> failingClient (retrieve_a_block idB1) = Inl (HttpClientError ''object_not_found'')
   \<and> resolveBlockToPage failingClient idB1 [] = Some (Inr None, [retrieve_a_block idB1])
   \<and> failingClient (retrieve_a_database idB1) = Inl (HttpClientError ''object_not_found'')
   \<and> getDatabaseParent failingClient idB1 [] = Some (Inr None, [retrieve_a_database idB1])
   \<and> checkPageHierarchy (freshController {idP1} failingClient) idB1
       = Some (Inr False,
           cacheSet idB1 \<lparr>parentId = None, isAllowed = False\<rparr>
             ((freshController {idP1} failingClient)\<lparr>calls := [retrieve_a_page idB1]\<rparr>))
   \<and> normalizePageId idX = Inr idX
   \<and> resourceOf failingClient 0 idX = Some (retrieve_a_block idX)
   \<and> chainBreaks failingClient {idP1} 0 (retrieve_a_block idX)
   \<and> (\<exists>c''. isPageAllowed (freshController {idP1} failingClient) idX = Some (Inr False, c'')
         \<and> (\<exists>entry. pageCache c'' idX = Some entry \<and> \<not> isAllowed entry))
   \<and> resourceOf brokenParentClient 0 idX = Some (retrieve_a_page idX)
   \<and> chainBreaks brokenParentClient {idP1} (Suc 0) (retrieve_a_page idX)
   \<and> (\<exists>c''. isPageAllowed (freshController {idP1} brokenParentClient) idX = Some (Inr False, c'')
         \<and> (\<exists>entry. pageCache c'' idX = Some entry \<and> \<not> isAllowed entry))"
proof -
  let ?c = "freshController {idP1} failingClient"
  let ?b = "freshController {idP1} brokenParentClient"
  have bad: "normalizePageId ''abc123'' = Inl (InvalidPageId ''abc123'')"
    by code_simp
  have run: "isPageAllowed ?c ''abc123'' = Some (Inl (InvalidPageId ''abc123''), ?c)"
    using isPageAllowed_invalid[of ?c "''abc123''", OF _ bad] by simp
  have fb: "failingClient (retrieve_a_block idB1) = Inl (HttpClientError ''object_not_found'')"
    and fd: "failingClient (retrieve_a_database idB1) = Inl (HttpClientError ''object_not_found'')"
    and fp: "httpClient ?c (retrieve_a_page idB1) = Inl (HttpClientError ''object_not_found'')"
    by (simp_all add: failingClient_def)
  have k1: "resourceOf failingClient 0 idX = Some (retrieve_a_block idX)"
    by code_simp
  have c1: "chainBreaks failingClient {idP1} 0 (retrieve_a_block idX)"
    by code_simp
  have k2: "resourceOf brokenParentClient 0 idX = Some (retrieve_a_page idX)"
    by code_simp
  have c2: "chainBreaks brokenParentClient {idP1} (Suc 0) (retrieve_a_page idX)"
    by code_simp
  note t1 = isPageAllowed_catches_provider_failures
    [of ?c "''abc123''" "InvalidPageId ''abc123''" ?c idX failingClient idB1 "[]" "[]" idB1
      "HttpClientError ''object_not_found''" 0 "retrieve_a_block idX" 0]
  note t2 = isPageAllowed_catches_provider_failures
    [of ?c idX "InvalidPageId ''abc123''" ?c idX failingClient idB1 "[]" "[]" idB1
      "HttpClientError ''object_not_found''" 0 "retrieve_a_block idX" 0]
  note t3 = isPageAllowed_catches_provider_failures
    [of ?b idX "InvalidPageId ''abc123''" ?b idX brokenParentClient idB1 "[]" "[]" idB1
      "HttpClientError ''object_not_found''" 0 "retrieve_a_page idX" "Suc 0"]
  from t1 run have a1: "normalizePageId ''abc123'' = Inl (InvalidPageId ''abc123'')" by blast
  from t1 fb have a2: "resolveBlockToPage failingClient idB1 []
      = Some (Inr None, [] @ [retrieve_a_block idB1])" by blast
  from t1 fd have a3: "getDatabaseParent failingClient idB1 []
      = Some (Inr None, [] @ [retrieve_a_database idB1])" by blast
  have h4: "idB1 \<noteq> [] \<and> idB1 \<notin> rootPageIds ?c
      \<and> httpClient ?c (retrieve_a_page idB1) = Inl (HttpClientError ''object_not_found'')"
    using fp by (simp add: example_ids_distinct)
  from t1 h4 have a4: "checkPageHierarchy ?c idB1
       = Some (Inr False,
           cacheSet idB1 \<lparr>parentId = None, isAllowed = False\<rparr>
             (?c\<lparr>calls := calls ?c @ [retrieve_a_page idB1]\<rparr>))" by blast
  have h5: "rootPageIds ?c \<noteq> {} \<and> normalizePageId idX = Inr idX \<and> idX \<notin> rootPageIds ?c
        \<and> pageCache ?c idX = None \<and> resourceOf (httpClient ?c) 0 idX = Some (retrieve_a_block idX)
        \<and> chainBreaks (httpClient ?c) (rootPageIds ?c) 0 (retrieve_a_block idX)"
    using k1 c1 normalizePageId_examples(1) example_ids_distinct
    by (simp only: freshController_fields, simp?)
  from t2 h5 have a5: "\<exists>c''. isPageAllowed ?c idX = Some (Inr False, c'')
         \<and> (\<exists>entry. pageCache c'' idX = Some entry \<and> \<not> isAllowed entry)" by blast
  have h6: "rootPageIds ?b \<noteq> {} \<and> normalizePageId idX = Inr idX \<and> idX \<notin> rootPageIds ?b
        \<and> pageCache ?b idX = None \<and> resourceOf (httpClient ?b) 0 idX = Some (retrieve_a_page idX)
        \<and> chainBreaks (httpClient ?b) (rootPageIds ?b) (Suc 0) (retrieve_a_page idX)"
    using k2 c2 normalizePageId_examples(1) example_ids_distinct
    by (simp only: freshController_fields, simp?)
  from t3 h6 have a6: "\<exists>c''. isPageAllowed ?b idX = Some (Inr False, c'')
         \<and> (\<exists>entry. pageCache c'' idX = Some entry \<and> \<not> isAllowed entry)" by blast
  from run a1 fb a2 fd a3 a4 normalizePageId_examples(1) k1 c1 a5 k2 c2 a6
  show ?thesis by simp
qed

section \<open>Repeated calls\<close>

lemma checkPageHierarchyLoop_keeps_keys:
  assumes "checkPageHierarchyLoop c visited cur = Some r"
  shows "dom (pageCache c) \<subseteq> dom (pageCache (snd r))"
  using assms
proof (induction rule: checkPageHierarchyLoop_cases_induct)
  case (exit c visited cur)
  show ?case by (auto simp: dom_cacheVisitedDenied)
next
  case (root c visited p)
  show ?case by (auto simp: dom_cacheVisitedAllowed)
next
  case (error c visited p e log)
  show ?case by auto
next
  case (step c visited p q log r)
  have "dom (pageCache (cacheSet p \<lparr>parentId = q, isAllowed = False\<rparr> (c\<lparr>calls := log\<rparr>)))
      = insert p (dom (pageCache c))"
    by simp
  with step(6) show ?case by (auto simp del: cacheSet_fields(4))
next
  case (break c visited p q log)
  show ?case by (auto simp: dom_cacheVisitedDenied)
qed

lemma isPageAllowed_keeps_keys:
  assumes "isPageAllowed c x = Some (r, c')"
  shows "dom (pageCache c) \<subseteq> dom (pageCache c')"
  using assms
proof (cases rule: isPageAllowed_cases)
  case (walk n p log b c1)
  from checkPageHierarchyLoop_keeps_keys[OF walk(7)[unfolded checkPageHierarchy_def]] walk(9)
  show ?thesis by auto
qed auto

lemma callsInSequence_frame:
  "callsInSequence c ys = Some c' \<Longrightarrow>
   rootPageIds c' = rootPageIds c \<and> httpClient c' = httpClient c
   \<and> dom (pageCache c) \<subseteq> dom (pageCache c')"
proof (induction ys arbitrary: c)
  case Nil
  then show ?case by simp
next
  case (Cons y ys)
  then obtain r c1 where y: "isPageAllowed c y = Some (r, c1)"
    and rest: "callsInSequence c1 ys = Some c'"
    by (auto split: option.splits)
  from isPageAllowed_frame[OF y] isPageAllowed_keeps_keys[OF y] Cons.IH[OF rest]
  show ?case by (simp add: subset_trans[of "dom (pageCache c)" "dom (pageCache c1)"])
qed

lemma isPageAllowed_same_id:
  "normalizePageId y = normalizePageId x \<Longrightarrow> isPageAllowed c x = Some (Inr b, c') \<Longrightarrow>
   isPageAllowed c y = Some (Inr b, c')"
  by (auto simp: isPageAllowed_def split: if_splits sum.splits)

lemma callsInSequence_same_id:
  assumes "isPageAllowed c x = Some (Inr b, c)"
    and "\<forall>y\<in>set ys. normalizePageId y = normalizePageId x"
  shows "callsInSequence c ys = Some c"
  using assms(2)
proof (induction ys)
  case Nil
  then show ?case by simp
next
  case (Cons y ys)
  then have "isPageAllowed c y = Some (Inr b, c)"
    using isPageAllowed_same_id[OF _ assms(1), of y] by simp
  with Cons show ?case by simp
qed

lemma repeat_on_same_entry:
  assumes first: "isPageAllowed c x = Some (Inr b, c')"
    and roots: "rootPageIds c'' = rootPageIds c'"
    and entry: "\<And>n. normalizePageId x = Inr n \<Longrightarrow> pageCache c'' n = pageCache c' n"
  shows "isPageAllowed c'' x = Some (Inr b, c'')"
proof -
  from isPageAllowed_frame[OF first] have r': "rootPageIds c' = rootPageIds c" by simp
  with roots have r: "rootPageIds c'' = rootPageIds c" by simp
  from first show ?thesis
  proof (cases rule: isPageAllowed_cases)
    case disabled
    with r r' show ?thesis by (simp add: isPageAllowed_disabled)
  next
    case (invalid e)
    then show ?thesis by simp
  next
    case (root n)
    with r r' show ?thesis by (simp add: isPageAllowed_root)
  next
    case (cached n en)
    with r r' entry[of n] isPageAllowed_cached[of c'' x n en] show ?thesis by simp
  next
    case (unknown n res log)
    with r r' entry[of n]
      isPageAllowed_cached[of c'' x n "\<lparr>parentId = None, isAllowed = False\<rparr>"]
    show ?thesis by simp
  next
    case (walk n p log b' c1)
    with r r' entry[of n]
      isPageAllowed_cached[of c'' x n "\<lparr>parentId = Some p, isAllowed = b'\<rparr>"]
    show ?thesis by simp
  qed
qed

lemma answered_after_first_call:
  assumes first: "isPageAllowed c x = Some (Inr b, c1)"
    and later: "callsInSequence c1 ys = Some c2"
  shows "\<exists>b'. isPageAllowed c2 x = Some (Inr b', c2)
           \<and> (rootPageIds c = {}
               \<or> (\<exists>n. normalizePageId x = Inr n
                     \<and> (n \<in> rootPageIds c
                         \<or> (\<exists>e. pageCache c2 n = Some e \<and> isAllowed e = b'))))"
proof -
  from isPageAllowed_frame[OF first] callsInSequence_frame[OF later]
  have r: "rootPageIds c2 = rootPageIds c" and d: "dom (pageCache c1) \<subseteq> dom (pageCache c2)"
    by simp_all
  from first show ?thesis
  proof (cases rule: isPageAllowed_cases)
    case disabled
    with r show ?thesis by (auto simp: isPageAllowed_disabled)
  next
    case (invalid e)
    then show ?thesis by simp
  next
    case (root n)
    with r show ?thesis by (auto simp: isPageAllowed_root)
  next
    case (cached n en)
    with d obtain e2 where e2: "pageCache c2 n = Some e2" by auto
    from isPageAllowed_cached[of c2 x n e2] cached r e2 show ?thesis by simp
  next
    case (unknown n res log)
    with d obtain e2 where e2: "pageCache c2 n = Some e2" by auto
    from isPageAllowed_cached[of c2 x n e2] unknown r e2 show ?thesis by simp
  next
    case (walk n p log b' c3)
    with d obtain e2 where e2: "pageCache c2 n = Some e2" by auto
    from isPageAllowed_cached[of c2 x n e2] walk r e2 show ?thesis by simp
  qed
qed

lemma flip_ids_distinct:
  "idX \<noteq> idB1" "idB1 \<noteq> idX" "idX \<noteq> idP1" "idP1 \<noteq> idX" "idB1 \<noteq> idP1" "idP1 \<noteq> idB1"
  "idX \<noteq> []" "idB1 \<noteq> []" "idP1 \<noteq> []"
  by (simp_all add: idX_def idB1_def idP1_def)

lemma flip_first_call:
  "isPageAllowed (freshController {idP1} flipClient) idB1 = Some (Inr True, flipAfterB1)"
proof -
  let ?c = "freshController {idP1} flipClient"
  note ne = flip_ids_distinct
  have pb: "httpClient ?c (retrieve_a_page idB1) = Inl (HttpClientError ''object_not_found'')"
    using ne by (simp add: flipClient_def)
  have d: "resolveContainer (httpClient ?c) (database idB1) (calls ?c @ [retrieve_a_page idB1])
      = Some (Inr None, [retrieve_a_page idB1, retrieve_a_database idB1])"
    by (simp add: resolveContainer_database flipClient_def)
  have b: "resolveContainer (httpClient ?c) (block idB1)
        [retrieve_a_page idB1, retrieve_a_database idB1]
      = Some (Inr (Some idP1),
          [retrieve_a_page idB1, retrieve_a_database idB1, retrieve_a_block idB1])"
    by (simp add: resolveContainer_block flipClient_def)
  have f: "findRootPageForResource (httpClient ?c) idB1 (calls ?c)
      = Some (Inr (Some idP1),
          [retrieve_a_page idB1, retrieve_a_database idB1, retrieve_a_block idB1])"
    using findRootPageForResource_block[OF pb d _ b] ne by (simp add: truthy_def)
  define d0 where "d0 = ?c\<lparr>calls := [retrieve_a_page idB1, retrieve_a_database idB1,
      retrieve_a_block idB1]\<rparr>"
  have w: "checkPageHierarchy d0 idP1 = Some (Inr True, cacheVisitedAllowed [idP1] d0)"
    unfolding checkPageHierarchy_def
    using checkPageHierarchyLoop_root[of idP1 "[]" d0] ne by (simp add: d0_def)
  have run: "isPageAllowed ?c idB1
      = Some (Inr True, cacheSet idB1 \<lparr>parentId = Some idP1, isAllowed = True\<rparr>
          (cacheVisitedAllowed [idP1] d0))"
    using isPageAllowed_walk[of ?c idB1 idB1 idP1, OF _ normalizePageId_examples(2) _ _ f _
        w[unfolded d0_def]] ne
    by (simp add: d0_def)
  have "cacheSet idB1 \<lparr>parentId = Some idP1, isAllowed = True\<rparr> (cacheVisitedAllowed [idP1] d0)
      = flipAfterB1"
    by (intro controller.equality)
       (simp_all add: d0_def flipAfterB1_def cacheVisitedAllowed_one)
  with run show ?thesis by simp
qed

lemma flip_second_call:
  "isPageAllowed flipAfterB1 idX = Some (Inr False, flipAfterX)"
proof -
  let ?c = "flipAfterB1"
  note ne = flip_ids_distinct
  have fields: "rootPageIds ?c = {idP1}" "httpClient ?c = flipClient"
    "calls ?c = [retrieve_a_page idB1, retrieve_a_database idB1, retrieve_a_block idB1]"
    "pageCache ?c idX = None"
    using ne by (simp_all add: flipAfterB1_def)
  have px: "flipClient (retrieve_a_page idX) = Inr (Some (page_id idB1))"
    using ne by (simp add: flipClient_def)
  have pb: "flipClient (retrieve_a_page idB1) = Inl (HttpClientError ''object_not_found'')"
    using ne by (simp add: flipClient_def)
  define c0 where "c0 = ?c\<lparr>calls := calls ?c @ [retrieve_a_page idX]\<rparr>"
  define c1 where "c1 = cacheSet idX \<lparr>parentId = Some idB1, isAllowed = False\<rparr>
      (c0\<lparr>calls := calls c0 @ [retrieve_a_page idX]\<rparr>)"
  define c2 where "c2 = cacheSet idB1 \<lparr>parentId = None, isAllowed = False\<rparr>
      (c1\<lparr>calls := calls c1 @ [retrieve_a_page idB1]\<rparr>)"
  have f: "findRootPageForResource (httpClient ?c) idX (calls ?c)
             = Some (Inr (Some idX), calls ?c @ [retrieve_a_page idX])"
    using findRootPageForResource_page[of flipClient idX, OF px] by (simp add: fields)
  have g0: "getParentPageId (httpClient c0) idX (calls c0)
             = Some (Inr (Some idB1), calls c0 @ [retrieve_a_page idX])"
    using getParentPageId_page[of flipClient idX, OF px] by (simp add: c0_def fields)
  have s0: "checkPageHierarchyLoop c0 [] (Some idX)
      = checkPageHierarchyLoop c1 ([] @ [idX]) (Some idB1)"
    unfolding c1_def
    by (rule checkPageHierarchyLoop_step[OF _ _ _ g0])
       (use ne in \<open>simp_all add: c0_def truthy_def fields\<close>)
  have g1: "getParentPageId (httpClient c1) idB1 (calls c1)
             = Some (Inl (HttpClientError ''object_not_found''), calls c1 @ [retrieve_a_page idB1])"
    using getParentPageId_throws[of flipClient idB1, OF pb] by (simp add: c1_def c0_def fields)
  have s1: "checkPageHierarchyLoop c1 [idX] (Some idB1) = Some (Inr False, c2)"
    unfolding c2_def
    by (rule checkPageHierarchyLoop_error[OF _ _ _ g1])
       (use ne in \<open>simp_all add: c1_def c0_def fields\<close>)
  have w: "checkPageHierarchy (?c\<lparr>calls := calls ?c @ [retrieve_a_page idX]\<rparr>) idX
      = Some (Inr False, c2)"
    using s0 s1 by (simp add: checkPageHierarchy_def c0_def)
  have run: "isPageAllowed ?c idX
      = Some (Inr False, cacheSet idX \<lparr>parentId = Some idX, isAllowed = False\<rparr> c2)"
    using isPageAllowed_walk[of ?c idX idX idX, OF _ normalizePageId_examples(1) _ _ f _ w] ne
    by (simp add: fields)
  have "cacheSet idX \<lparr>parentId = Some idX, isAllowed = False\<rparr> c2 = flipAfterX"
    using ne
    by (intro controller.equality)
       (auto simp: c2_def c1_def c0_def flipAfterB1_def flipAfterX_def fun_upd_twist)
  with run show ?thesis by simp
qed

lemma flip_third_call:
  "isPageAllowed flipAfterX idB1 = Some (Inr False, flipAfterX)"
  using isPageAllowed_cached[of flipAfterX idB1 idB1 "\<lparr>parentId = None, isAllowed = False\<rparr>",
      OF _ normalizePageId_examples(2)] flip_ids_distinct
  by (simp add: flipAfterX_def)

text \<open>
  C9, as the code has it. After \<open>isPageAllowed\<close> has returned \<open>b\<close> for an input, take any
  calls of \<open>isPageAllowed\<close> that follow one after the other and return. A call for the first
  input after them returns a boolean and leaves the controller as it is, so the provider is
  not called; unless access control is off or the id is a root, the boolean is the
  \<open>isAllowed\<close> of the entry the cache then holds for the id. If the calls in between were
  all for the same id, the controller is still the one the first call left. On every
  controller with the same root set and the same cache entry for the id as the first call
  left, the answer is \<open>b\<close> again, with the controller unchanged.
\<close>

theorem isPageAllowed_repeat_from_cache:
  assumes "isPageAllowed c x = Some (Inr b, c1)"
    and "callsInSequence c1 ys = Some c2"
  shows "(\<exists>b'. isPageAllowed c2 x = Some (Inr b', c2)
            \<and> (rootPageIds c = {}
                \<or> (\<exists>n. normalizePageId x = Inr n
                      \<and> (n \<in> rootPageIds c
                          \<or> (\<exists>e. pageCache c2 n = Some e \<and> isAllowed e = b')))))
       \<and> ((\<forall>y\<in>set ys. normalizePageId y = normalizePageId x) \<longrightarrow> c2 = c1)
       \<and> (rootPageIds c3 = rootPageIds c1
            \<and> (\<forall>n. normalizePageId x = Inr n \<longrightarrow> pageCache c3 n = pageCache c1 n) \<longrightarrow>
            isPageAllowed c3 x = Some (Inr b, c3))"
proof -
  note p1 = answered_after_first_call[OF assms]
  have again: "isPageAllowed c1 x = Some (Inr b, c1)"
    by (rule repeat_on_same_entry[OF assms(1)]) simp_all
  have p2: "(\<forall>y\<in>set ys. normalizePageId y = normalizePageId x) \<longrightarrow> c2 = c1"
    using callsInSequence_same_id[OF again, of ys] assms(2) by auto
  have p3: "rootPageIds c3 = rootPageIds c1
            \<and> (\<forall>n. normalizePageId x = Inr n \<longrightarrow> pageCache c3 n = pageCache c1 n) \<longrightarrow>
            isPageAllowed c3 x = Some (Inr b, c3)"
    using repeat_on_same_entry[OF assms(1), of c3] by blast
  show ?thesis by (intro conjI) (fact p1 p2 p3)+
qed

text \<open>
  The id \<open>idB1\<close>, allowed by its first call. Asked for again twice, with and without
  hyphens, it is allowed from the cache and the controller does not change. After a call
  for \<open>idX\<close> in between, it is answered from the cache as well, with the entry that call
  left.
\<close>

theorem isPageAllowed_repeat_from_cache_witness:
  "isPageAllowed (freshController {idP1} flipClient) idB1 = Some (Inr True, flipAfterB1)
   \<and> callsInSequence flipAfterB1 [idB1, ''bbbbbbbbbbbbbbbbbbbbbbbbbbbbbbbb''] = Some flipAfterB1
   \<and> isPageAllowed flipAfterB1 idB1 = Some (Inr True, flipAfterB1)
   \<and> callsInSequence flipAfterB1 [idX] = Some flipAfterX
   \<and> (\<exists>b'. isPageAllowed flipAfterX idB1 = Some (Inr b', flipAfterX)
         \<and> (\<exists>e. pageCache flipAfterX idB1 = Some e \<and> isAllowed e = b'))"
proof -
  let ?c = "freshController {idP1} flipClient"
  note first = flip_first_call
  have same: "normalizePageId ''bbbbbbbbbbbbbbbbbbbbbbbbbbbbbbbb'' = normalizePageId idB1"
    unfolding idB1_def by code_simp
  have again: "isPageAllowed flipAfterB1 idB1 = Some (Inr True, flipAfterB1)"
    using isPageAllowed_repeat_from_cache[OF first, of "[]" flipAfterB1 flipAfterB1] by simp
  have "isPageAllowed flipAfterB1 ''bbbbbbbbbbbbbbbbbbbbbbbbbbbbbbbb''
      = Some (Inr True, flipAfterB1)"
    using isPageAllowed_same_id[OF same again] .
  with again have s1: "callsInSequence flipAfterB1 [idB1, ''bbbbbbbbbbbbbbbbbbbbbbbbbbbbbbbb'']
      = Some flipAfterB1" by simp
  have s2: "callsInSequence flipAfterB1 [idX] = Some flipAfterX"
    using flip_second_call by simp
  have ne: "idB1 \<notin> {idP1}" "{idP1} \<noteq> ({} :: string set)"
    using flip_ids_distinct by simp_all
  from isPageAllowed_repeat_from_cache[OF first s2, of ?c] normalizePageId_examples(2) ne
  have a: "\<exists>b'. isPageAllowed flipAfterX idB1 = Some (Inr b', flipAfterX)
         \<and> (\<exists>e. pageCache flipAfterX idB1 = Some e \<and> isAllowed e = b')"
    by (simp only: freshController_fields, simp?)
  from first s1 again s2 a show ?thesis by blast
qed

text \<open>
  C9, as stated, fails: a later call for another id can overwrite the entry. The id
  \<open>idB1\<close> is allowed; the walk of \<open>isPageAllowed idX\<close> then visits \<open>idB1\<close> as the parent
  page of \<open>idX\<close>, the provider throws at that page, and the walk caches \<open>idB1\<close> as not
  allowed; the next \<open>isPageAllowed idB1\<close> returns \<open>false\<close>, with no \<open>clearCache\<close> in
  between.
\<close>

theorem cache_entry_overwritten_by_later_walk:
  "isPageAllowed (freshController {idP1} flipClient) idB1 = Some (Inr True, flipAfterB1)
   \<and> isPageAllowed flipAfterB1 idX = Some (Inr False, flipAfterX)
   \<and> isPageAllowed flipAfterX idB1 = Some (Inr False, flipAfterX)"
  using flip_first_call flip_second_call flip_third_call by simp

end
